theory Spec2Isabelle
  imports Main "HOL-Library.Word"
begin

unbundle bit_operations_syntax

section \<open>Memory and machine integers\<close>

text \<open>
  The heap of \<^verbatim>\<open>mm.c\<close> is a byte-addressed region. Addresses are mathematical
  integers (pointer arithmetic is assumed not to wrap around the address space), a
  byte is an 8-bit word, and every \<^verbatim>\<open>int32_t\<close> access reads or writes four
  consecutive bytes, little-endian. \<^verbatim>\<open>size_t\<close> is the 32-bit unsigned type of
  the target of the allocator (the source casts pointers to \<^verbatim>\<open>uint32_t\<close>).
  An \<^verbatim>\<open>int32_t\<close> value is represented by the integer it denotes; \<open>i32\<close>
  is the conversion into that type (two's complement wrap-around).
\<close>

type_synonym addr = int
type_synonym byte = "8 word"
type_synonym size_t = "32 word"

definition i32 :: "int \<Rightarrow> int" where
  "i32 x = sint (word_of_int x :: 32 word)"

definition read32 :: "(addr \<Rightarrow> byte) \<Rightarrow> addr \<Rightarrow> int" where
  "read32 m a =
     i32 (uint (m a) + 256 * uint (m (a + 1)) + 65536 * uint (m (a + 2))
          + 16777216 * uint (m (a + 3)))"

definition write32 :: "(addr \<Rightarrow> byte) \<Rightarrow> addr \<Rightarrow> int \<Rightarrow> (addr \<Rightarrow> byte)" where
  "write32 m a v =
     m(a := word_of_int v, a + 1 := word_of_int (v div 256),
       a + 2 := word_of_int (v div 65536), a + 3 := word_of_int (v div 16777216))"

text \<open>\<^verbatim>\<open>memset\<close>, \<^verbatim>\<open>memmove\<close> and \<^verbatim>\<open>memcpy\<close> on the byte memory. The copy reads
  every source byte from the memory before the call, as \<^verbatim>\<open>memmove\<close> does.\<close>

definition memset :: "(addr \<Rightarrow> byte) \<Rightarrow> addr \<Rightarrow> byte \<Rightarrow> int \<Rightarrow> (addr \<Rightarrow> byte)" where
  "memset m p c n = (\<lambda>a. if p \<le> a \<and> a < p + n then c else m a)"

definition memmove :: "(addr \<Rightarrow> byte) \<Rightarrow> addr \<Rightarrow> addr \<Rightarrow> int \<Rightarrow> (addr \<Rightarrow> byte)" where
  "memmove m dst src n = (\<lambda>a. if dst \<le> a \<and> a < dst + n then m (src + (a - dst)) else m a)"

section \<open>The allocator state\<close>

text \<open>
  The globals of \<^verbatim>\<open>mm.c\<close> (\<open>head\<close>, \<open>first\<close>) together with the state of the
  heap-growth collaborator (\<^verbatim>\<open>memlib\<close>: the heap's first byte, its break and its
  upper limit) and the memory itself.
\<close>

record heap_state =
  mem :: "addr \<Rightarrow> byte"
  mem_start_brk :: addr
  mem_brk :: addr
  mem_max_addr :: addr
  head :: addr
  first :: addr

abbreviation NULL :: addr where "NULL \<equiv> 0"

text \<open>Modelled from the spec: the heap-growth collaborator \<^verbatim>\<open>mem_sbrk\<close>,
  \<^verbatim>\<open>mem_heap_hi\<close> and \<^verbatim>\<open>mem_heapsize\<close>, whose code (\<^verbatim>\<open>memlib.c\<close>) is not part of the
  sources. \<open>extend_heap(additional_bytes)\<close> grows the region by exactly that many bytes
  and returns the address following the previous end, or fails (\<open>None\<close> stands for the
  failure sentinel \<^verbatim>\<open>(void*)-1\<close>); growth is impossible when the request is negative or
  would pass the limit of the region. A failed call changes nothing.\<close>

definition mem_sbrk :: "heap_state \<Rightarrow> int \<Rightarrow> (addr \<times> heap_state) option" where
  "mem_sbrk s incr =
     (if incr < 0 \<or> mem_brk s + incr > mem_max_addr s then None
      else Some (mem_brk s, s\<lparr>mem_brk := mem_brk s + incr\<rparr>))"

definition mem_heap_hi :: "heap_state \<Rightarrow> addr" where
  "mem_heap_hi s = mem_brk s - 1"

definition mem_heapsize :: "heap_state \<Rightarrow> int" where
  "mem_heapsize s = mem_brk s - mem_start_brk s"

section \<open>Macros\<close>

abbreviation ALIGNMENT :: int where "ALIGNMENT \<equiv> 8"
abbreviation LIST_TOTAL :: nat where "LIST_TOTAL \<equiv> 32"
abbreviation MALLOCBUF :: int where "MALLOCBUF \<equiv> 4096"
abbreviation REALLOCBUF :: int where "REALLOCBUF \<equiv> 256"
abbreviation HEADER_SIZE :: int where "HEADER_SIZE \<equiv> 4"

text \<open>\<^verbatim>\<open>ALIGN_FOR_BLOCK\<close> in \<^verbatim>\<open>size_t\<close> arithmetic: the sum wraps modulo \<open>2^32\<close>,
  \<^verbatim>\<open>SIZEMASK\<close> is \<^verbatim>\<open>~0x7\<close>. The second form is the macro applied to an \<^verbatim>\<open>int32_t\<close>
  argument (\<^verbatim>\<open>mm_realloc\<close>): the comparison with \<^verbatim>\<open>ALIGNMENT\<close> is then signed, the sum
  is taken after conversion to \<^verbatim>\<open>size_t\<close>.\<close>

definition ALIGN_FOR_BLOCK :: "size_t \<Rightarrow> size_t" where
  "ALIGN_FOR_BLOCK sz = (if sz < 8 then 16 else (sz + 4 + 8 - 1) AND NOT 7)"

definition ALIGN_FOR_BLOCK_int :: "int \<Rightarrow> size_t" where
  "ALIGN_FOR_BLOCK_int d = (if d < 8 then 16 else (word_of_int d + 4 + 8 - 1) AND NOT 7)"

definition BLOCK_SIZE :: "heap_state \<Rightarrow> addr \<Rightarrow> int" where
  "BLOCK_SIZE s p = read32 (mem s) p AND (- 8)"

text \<open>\<^verbatim>\<open>PAYLOAD_SIZE\<close> subtracts the \<^verbatim>\<open>size_t\<close> constant \<^verbatim>\<open>HEADER_SIZE\<close>: its value is
  unsigned.\<close>

definition PAYLOAD_SIZE :: "heap_state \<Rightarrow> addr \<Rightarrow> size_t" where
  "PAYLOAD_SIZE s p = word_of_int (BLOCK_SIZE s p) - 4"

definition PAYLOAD_ADDR :: "addr \<Rightarrow> addr" where
  "PAYLOAD_ADDR p = p + HEADER_SIZE"

definition HEADER_ADDR :: "addr \<Rightarrow> addr" where
  "HEADER_ADDR p = p - HEADER_SIZE"

definition SET_HEADER :: "heap_state \<Rightarrow> addr \<Rightarrow> int \<Rightarrow> heap_state" where
  "SET_HEADER s p sz = s\<lparr>mem := write32 (mem s) p (sz OR 1)\<rparr>"

definition FREE_HEADER :: "heap_state \<Rightarrow> addr \<Rightarrow> int \<Rightarrow> heap_state" where
  "FREE_HEADER s p sz =
     (let s1 = s\<lparr>mem := write32 (mem s) p sz\<rparr>
      in s1\<lparr>mem := write32 (mem s1) (p + sz - HEADER_SIZE) sz\<rparr>)"

definition NEXT_BLOCK :: "heap_state \<Rightarrow> addr \<Rightarrow> addr" where
  "NEXT_BLOCK s p = p + (read32 (mem s) p AND (- 8))"

definition NEXT_LIST_HEADER :: "addr \<Rightarrow> addr" where
  "NEXT_LIST_HEADER p = p + 8"

definition IS_SET :: "heap_state \<Rightarrow> addr \<Rightarrow> bool" where
  "IS_SET s p = (read32 (mem s) p AND 7 = 1)"

definition NEXT_FREE_BLOCK_VAL :: "heap_state \<Rightarrow> addr \<Rightarrow> int" where
  "NEXT_FREE_BLOCK_VAL s p = read32 (mem s) (p + HEADER_SIZE)"

definition PREV_FREE_BLOCK_VAL :: "heap_state \<Rightarrow> addr \<Rightarrow> int" where
  "PREV_FREE_BLOCK_VAL s p = read32 (mem s) (p + 8)"

definition SET_NEXT_FREE_BLOCK :: "heap_state \<Rightarrow> addr \<Rightarrow> addr \<Rightarrow> heap_state" where
  "SET_NEXT_FREE_BLOCK s p nextptr = s\<lparr>mem := write32 (mem s) (p + HEADER_SIZE) (nextptr - p)\<rparr>"

definition SET_PREV_FREE_BLOCK :: "heap_state \<Rightarrow> addr \<Rightarrow> addr \<Rightarrow> heap_state" where
  "SET_PREV_FREE_BLOCK s p prevptr = s\<lparr>mem := write32 (mem s) (p + 8) (prevptr - p)\<rparr>"

definition NEXT_FREE_BLOCK :: "heap_state \<Rightarrow> addr \<Rightarrow> addr" where
  "NEXT_FREE_BLOCK s p = p + NEXT_FREE_BLOCK_VAL s p"

definition PREV_FREE_BLOCK :: "heap_state \<Rightarrow> addr \<Rightarrow> addr" where
  "PREV_FREE_BLOCK s p = p + PREV_FREE_BLOCK_VAL s p"

definition IS_END :: "heap_state \<Rightarrow> addr \<Rightarrow> bool" where
  "IS_END s p = (NEXT_FREE_BLOCK_VAL s p = 0)"

definition IS_WITHIN_HEAP :: "heap_state \<Rightarrow> addr \<Rightarrow> bool" where
  "IS_WITHIN_HEAP s p = (p \<le> mem_heap_hi s)"

section \<open>Helper functions\<close>

text \<open>\<^verbatim>\<open>search_free_list\<close>: the loop carries \<open>order\<close>, \<open>list_num\<close> and \<open>list\<close>; the
  right shifts of the signed \<open>order\<close> are arithmetic.\<close>

function search_loop :: "int \<Rightarrow> nat \<Rightarrow> addr \<Rightarrow> addr" where
  "search_loop ordr list_num list =
     (if ordr > 1 \<and> list_num < LIST_TOTAL
      then search_loop (drop_bit 1 ordr) (list_num + 1) (NEXT_LIST_HEADER list)
      else list)"
  by pat_completeness auto
termination
  by (relation "measure (\<lambda>(ordr, list_num, list). LIST_TOTAL - list_num)") auto

declare search_loop.simps [simp del]

definition search_free_list :: "heap_state \<Rightarrow> int \<Rightarrow> addr" where
  "search_free_list s sz = search_loop (drop_bit 4 sz) 1 (head s)"

text \<open>\<^verbatim>\<open>remove_from_list\<close>.\<close>

definition remove_from_list :: "heap_state \<Rightarrow> addr \<Rightarrow> heap_state" where
  "remove_from_list s blkptr =
     (let prevblkptr = PREV_FREE_BLOCK s blkptr;
          nextblkptr = NEXT_FREE_BLOCK s blkptr
      in if IS_END s blkptr then SET_NEXT_FREE_BLOCK s prevblkptr prevblkptr
         else SET_PREV_FREE_BLOCK (SET_NEXT_FREE_BLOCK s prevblkptr nextblkptr)
                nextblkptr prevblkptr)"

text \<open>\<^verbatim>\<open>insert_into_list\<close>. The \<^verbatim>\<open>while (1)\<close> loop walks the bucket; it has no bound
  of its own, so it is a partial function and \<open>None\<close> stands for a walk that never
  ends. The macro arguments are evaluated where the macro uses them, in the memory of
  that moment.\<close>

partial_function (option) insert_loop :: "heap_state \<Rightarrow> addr \<Rightarrow> addr \<Rightarrow> heap_state option" where
  "insert_loop s list blkptr =
     (if BLOCK_SIZE s (NEXT_FREE_BLOCK s list) \<ge> BLOCK_SIZE s blkptr then
        (let s1 = SET_NEXT_FREE_BLOCK s blkptr (NEXT_FREE_BLOCK s list);
             s2 = SET_PREV_FREE_BLOCK s1 (NEXT_FREE_BLOCK s1 list) blkptr;
             s3 = SET_NEXT_FREE_BLOCK s2 list blkptr
         in Some (SET_PREV_FREE_BLOCK s3 blkptr list))
      else if IS_END s (NEXT_FREE_BLOCK s list) then
        (let s1 = SET_NEXT_FREE_BLOCK s (NEXT_FREE_BLOCK s list) blkptr;
             s2 = SET_NEXT_FREE_BLOCK s1 blkptr blkptr
         in Some (SET_PREV_FREE_BLOCK s2 blkptr (NEXT_FREE_BLOCK s2 list)))
      else insert_loop s (NEXT_FREE_BLOCK s list) blkptr)"

declare insert_loop.simps [code]

definition insert_into_list :: "heap_state \<Rightarrow> addr \<Rightarrow> heap_state option" where
  "insert_into_list s blkptr =
     (let list = search_free_list s (BLOCK_SIZE s blkptr)
      in if \<not> IS_END s list then insert_loop s list blkptr
         else (let s1 = SET_NEXT_FREE_BLOCK s list blkptr;
                   s2 = SET_NEXT_FREE_BLOCK s1 blkptr blkptr
               in Some (SET_PREV_FREE_BLOCK s2 blkptr list)))"

text \<open>\<^verbatim>\<open>split_block\<close>.\<close>

definition split_block :: "heap_state \<Rightarrow> addr \<Rightarrow> int \<Rightarrow> heap_state option" where
  "split_block s blkptr newsize =
     (let oldsize = BLOCK_SIZE s blkptr
      in if newsize < oldsize - ALIGNMENT then
           (let s1 = SET_HEADER s blkptr newsize;
                newblkptr = NEXT_BLOCK s1 blkptr;
                s2 = FREE_HEADER s1 newblkptr (i32 (oldsize - newsize))
            in insert_into_list s2 newblkptr)
         else Some (SET_HEADER s blkptr oldsize))"

text \<open>\<^verbatim>\<open>prev_block\<close>: the plausibility tests, then the walk of the bucket.\<close>

partial_function (option) prev_block_loop :: "heap_state \<Rightarrow> addr \<Rightarrow> addr \<Rightarrow> addr option" where
  "prev_block_loop s prevblk_header tempblkptr =
     (if prevblk_header = tempblkptr then Some prevblk_header
      else if IS_END s tempblkptr then Some NULL
      else prev_block_loop s prevblk_header (NEXT_FREE_BLOCK s tempblkptr))"

declare prev_block_loop.simps [code]

definition prev_block_tests :: "heap_state \<Rightarrow> addr \<Rightarrow> bool" where
  "prev_block_tests s blkptr =
     (let prevblk_footer = blkptr - HEADER_SIZE;
          prevblk_header = blkptr - BLOCK_SIZE s prevblk_footer
      in \<not> (IS_SET s prevblk_footer \<or>
             prevblk_header < first s \<or>
             prevblk_header > prevblk_footer - HEADER_SIZE * 3 \<or>
             (prevblk_header + HEADER_SIZE) mod ALIGNMENT \<noteq> 0 \<or>
             BLOCK_SIZE s prevblk_header \<noteq> BLOCK_SIZE s prevblk_footer \<or>
             IS_SET s prevblk_header))"

definition prev_block :: "heap_state \<Rightarrow> addr \<Rightarrow> addr option" where
  "prev_block s blkptr =
     (let prevblk_footer = blkptr - HEADER_SIZE;
          prevblk_header = blkptr - BLOCK_SIZE s prevblk_footer
      in if \<not> prev_block_tests s blkptr then Some NULL
         else (let list = search_free_list s (BLOCK_SIZE s prevblk_header)
               in prev_block_loop s prevblk_header (NEXT_FREE_BLOCK s list)))"

section \<open>Memory management functions\<close>

text \<open>The rounding loop of \<^verbatim>\<open>mm_malloc\<close> and \<^verbatim>\<open>mm_realloc\<close>:
  \<^verbatim>\<open>while (temp < size) temp <<= 1;\<close>\<close>

partial_function (option) round_loop :: "nat \<Rightarrow> nat \<Rightarrow> nat option" where
  "round_loop temp sz = (if temp < sz then round_loop (push_bit 1 temp) sz else Some temp)"

declare round_loop.simps [code]

text \<open>The search of \<^verbatim>\<open>mm_malloc\<close>: the inner loop over one bucket and the outer loop
  over the buckets from the starting one up to the last.\<close>

datatype fit = Fit addr | NoFit

partial_function (option) scan_list :: "heap_state \<Rightarrow> addr \<Rightarrow> int \<Rightarrow> fit option" where
  "scan_list s blkptr newsize =
     (if BLOCK_SIZE s blkptr \<ge> newsize then Some (Fit blkptr)
      else if IS_END s blkptr then Some NoFit
      else scan_list s (NEXT_FREE_BLOCK s blkptr) newsize)"

declare scan_list.simps [code]

function scan_lists :: "heap_state \<Rightarrow> addr \<Rightarrow> int \<Rightarrow> fit option" where
  "scan_lists s list newsize =
     (if list \<le> first s - ALIGNMENT then
        (case scan_list s (NEXT_FREE_BLOCK s list) newsize of
           None \<Rightarrow> None
         | Some (Fit blkptr) \<Rightarrow> Some (Fit blkptr)
         | Some NoFit \<Rightarrow> scan_lists s (NEXT_LIST_HEADER list) newsize)
      else Some NoFit)"
  by pat_completeness auto
termination
  by (relation "measure (\<lambda>(s, list, newsize). nat (first s - list))")
     (auto simp: NEXT_LIST_HEADER_def)

declare scan_lists.simps [simp del]

definition mm_malloc :: "heap_state \<Rightarrow> size_t \<Rightarrow> (addr \<times> heap_state) option" where
  "mm_malloc s sz =
     (if sz = 0 then Some (NULL, s)
      else
       (case (if sz < 4096 then map_option of_nat (round_loop 1 (unat sz)) else Some sz) of
          None \<Rightarrow> None
        | Some sz1 \<Rightarrow>
           (let newsize = sint (ALIGN_FOR_BLOCK sz1)
            in case scan_lists s (search_free_list s newsize) newsize of
                 None \<Rightarrow> None
               | Some (Fit blkptr) \<Rightarrow>
                   (case split_block (remove_from_list s blkptr) blkptr newsize of
                      None \<Rightarrow> None
                    | Some s2 \<Rightarrow> Some (PAYLOAD_ADDR blkptr, s2))
               | Some NoFit \<Rightarrow>
                   (let bufsize = (if newsize > MALLOCBUF then newsize else MALLOCBUF)
                    in case mem_sbrk s bufsize of
                         None \<Rightarrow> Some (NULL, s)
                       | Some (blkptr, s1) \<Rightarrow>
                           (case split_block (FREE_HEADER s1 blkptr bufsize) blkptr newsize of
                              None \<Rightarrow> None
                            | Some s3 \<Rightarrow> Some (PAYLOAD_ADDR blkptr, s3))))))"

text \<open>\<^verbatim>\<open>mm_free\<close>. \<open>coalesce_prev\<close> and \<open>coalesce_next\<close> are its two
  \<^verbatim>\<open>if\<close> statements; each returns the memory, the size and the block pointer after
  it.\<close>

definition coalesce_prev :: "heap_state \<Rightarrow> addr \<Rightarrow> addr \<Rightarrow> int \<Rightarrow> heap_state \<times> int \<times> addr" where
  "coalesce_prev s prevblkptr blkptr sz =
     (if prevblkptr \<noteq> NULL then
        (let s1 = remove_from_list s prevblkptr
         in (s1, i32 (sz + BLOCK_SIZE s1 prevblkptr), prevblkptr))
      else (s, sz, blkptr))"

definition coalesce_next :: "heap_state \<Rightarrow> addr \<Rightarrow> int \<Rightarrow> heap_state \<times> int" where
  "coalesce_next s nextblkptr sz =
     (if IS_WITHIN_HEAP s nextblkptr \<and> \<not> IS_SET s nextblkptr then
        (let s1 = remove_from_list s nextblkptr
         in (s1, i32 (sz + BLOCK_SIZE s1 nextblkptr)))
      else (s, sz))"

definition mm_free :: "heap_state \<Rightarrow> addr \<Rightarrow> heap_state option" where
  "mm_free s ptr =
     (if ptr = NULL then Some s
      else
       (let blkptr = HEADER_ADDR ptr
        in case prev_block s blkptr of
             None \<Rightarrow> None
           | Some prevblkptr \<Rightarrow>
              (let nextblkptr = NEXT_BLOCK s blkptr;
                   sz = BLOCK_SIZE s blkptr;
                   (s1, sz1, blkptr1) = coalesce_prev s prevblkptr blkptr sz;
                   (s2, sz2) = coalesce_next s1 nextblkptr sz1
               in insert_into_list (FREE_HEADER s2 blkptr1 sz2) blkptr1)))"

text \<open>\<^verbatim>\<open>mm_realloc\<close>. The rounding threshold is \<^verbatim>\<open>REALLOCBUF\<close>; the comparison of
  \<open>newsize\<close> with \<^verbatim>\<open>PAYLOAD_SIZE\<close> is unsigned.\<close>

definition mm_realloc :: "heap_state \<Rightarrow> addr \<Rightarrow> size_t \<Rightarrow> (addr \<times> heap_state) option" where
  "mm_realloc s ptr sz =
     (if ptr = NULL then mm_malloc s sz
      else if sz = 0 then map_option (\<lambda>s'. (NULL, s')) (mm_free s ptr)
      else
       (case (if sz < 256 then map_option of_nat (round_loop 1 (unat sz)) else Some sz) of
          None \<Rightarrow> None
        | Some sz1 \<Rightarrow>
           (let blkptr = HEADER_ADDR ptr;
                nextblkptr = NEXT_BLOCK s blkptr
            in case prev_block s blkptr of
                 None \<Rightarrow> None
               | Some prevblkptr \<Rightarrow>
                  (let oldsize = BLOCK_SIZE s blkptr;
                       newsize = sint (ALIGN_FOR_BLOCK sz1)
                   in if (word_of_int newsize :: size_t) \<le> PAYLOAD_SIZE s blkptr then Some (ptr, s)
                      else if IS_WITHIN_HEAP s nextblkptr \<and> \<not> IS_SET s nextblkptr \<and>
                              i32 (BLOCK_SIZE s nextblkptr + oldsize) \<ge> newsize then
                        (let combsize = i32 (BLOCK_SIZE s nextblkptr + oldsize);
                             s1 = remove_from_list s nextblkptr
                         in Some (PAYLOAD_ADDR blkptr, SET_HEADER s1 blkptr combsize))
                      else if IS_WITHIN_HEAP s nextblkptr \<and> \<not> IS_SET s nextblkptr \<and>
                              prevblkptr \<noteq> NULL \<and> BLOCK_SIZE s prevblkptr > REALLOCBUF \<and>
                              i32 (BLOCK_SIZE s prevblkptr + oldsize + BLOCK_SIZE s nextblkptr)
                                \<ge> newsize then
                        (let combsize =
                               i32 (BLOCK_SIZE s prevblkptr + oldsize + BLOCK_SIZE s nextblkptr);
                             s1 = remove_from_list s prevblkptr;
                             s2 = remove_from_list s1 nextblkptr;
                             s3 = s2\<lparr>mem := memmove (mem s2) prevblkptr blkptr
                                                (uint (word_of_int oldsize :: size_t))\<rparr>
                         in Some (PAYLOAD_ADDR prevblkptr, SET_HEADER s3 prevblkptr combsize))
                      else if prevblkptr \<noteq> NULL \<and> BLOCK_SIZE s prevblkptr > REALLOCBUF \<and>
                              i32 (BLOCK_SIZE s prevblkptr + oldsize) \<ge> newsize then
                        (let combsize = i32 (BLOCK_SIZE s prevblkptr + oldsize);
                             s1 = remove_from_list s prevblkptr;
                             s2 = s1\<lparr>mem := memmove (mem s1) prevblkptr blkptr
                                                (uint (word_of_int oldsize :: size_t))\<rparr>
                         in Some (PAYLOAD_ADDR prevblkptr, SET_HEADER s2 prevblkptr combsize))
                      else if \<not> IS_WITHIN_HEAP s nextblkptr then
                        (let bufsize = sint (ALIGN_FOR_BLOCK_int (newsize - oldsize))
                         in case mem_sbrk s bufsize of
                              None \<Rightarrow> Some (NULL, s)
                            | Some (p, s1) \<Rightarrow>
                                Some (PAYLOAD_ADDR blkptr,
                                      SET_HEADER s1 blkptr (i32 (oldsize + bufsize))))
                      else
                        (case mm_malloc s (word_of_int newsize) of
                           None \<Rightarrow> None
                         | Some (newptr, s1) \<Rightarrow>
                             if newptr = NULL then Some (NULL, s1)
                             else
                              (let s2 = s1\<lparr>mem := memmove (mem s1) newptr ptr
                                                   (uint (PAYLOAD_SIZE s1 blkptr))\<rparr>
                               in case mm_free s2 ptr of
                                    None \<Rightarrow> None
                                  | Some s3 \<Rightarrow>
                                      Some (PAYLOAD_ADDR (HEADER_ADDR newptr), s3)))))))"

text \<open>\<^verbatim>\<open>mm_init\<close>: the directory of 32 list heads, then the first region of the heap.
  \<open>init_size\<close> is
  \<^verbatim>\<open>((2 * HEADER_SIZE * LIST_TOTAL + HEADER_SIZE + ALIGNMENT - 1) & SIZEMASK) - HEADER_SIZE\<close>.\<close>

definition init_size :: int where
  "init_size = sint (((2 * 4 * 32 + 4 + 8 - 1) AND NOT 7) - 4 :: 32 word)"

definition mm_init :: "heap_state \<Rightarrow> (int \<times> heap_state) option" where
  "mm_init s =
     (case mem_sbrk s init_size of
        None \<Rightarrow> Some (- 1, s\<lparr>head := - 1\<rparr>)
      | Some (p, s1) \<Rightarrow>
         (let s2 = s1\<lparr>head := p\<rparr>;
              s3 = s2\<lparr>mem := memset (mem s2) (head s2) 0 (mem_heapsize s2)\<rparr>;
              s4 = s3\<lparr>first := mem_heap_hi s3 + 1\<rparr>
          in case mm_malloc s4 (word_of_int MALLOCBUF) of
               None \<Rightarrow> None
             | Some (q, s5) \<Rightarrow>
                 (case mm_free s5 q of
                    None \<Rightarrow> None
                  | Some s6 \<Rightarrow> Some (0, s6))))"

section \<open>The consistency checker\<close>

text \<open>The scan of \<^verbatim>\<open>mm_check\<close> for two consecutive free blocks
  (\<^verbatim>\<open>checkFreeBlockCoalesce\<close>): \<open>Some False\<close> when the scan finds a pair, \<open>Some True\<close>
  when it reaches the end of the heap without finding one.\<close>

partial_function (option) check_coalesce_loop :: "heap_state \<Rightarrow> addr \<Rightarrow> bool option" where
  "check_coalesce_loop s blkptr =
     (if IS_WITHIN_HEAP s blkptr then
        (if IS_WITHIN_HEAP s (NEXT_BLOCK s blkptr) \<and> \<not> IS_SET s blkptr \<and>
            \<not> IS_SET s (NEXT_BLOCK s blkptr)
         then Some False
         else check_coalesce_loop s (NEXT_BLOCK s blkptr))
      else Some True)"

declare check_coalesce_loop.simps [code]

definition checkFreeBlockCoalesce :: "heap_state \<Rightarrow> bool option" where
  "checkFreeBlockCoalesce s = check_coalesce_loop s (first s)"

section \<open>The heap invariant\<close>

text \<open>
  The description of a well-formed heap that the proofs below maintain. It is stated over
  three ghost parameters: \<open>A\<close>, the payload pointers the client holds (returned by
  \<^verbatim>\<open>mm_malloc\<close> or \<^verbatim>\<open>mm_realloc\<close> and not freed since); \<open>L\<close>, the content of the 32
  segregated lists in list order; and \<open>D\<close>, the regions that are detached in the middle
  of an operation (taken off their list or not yet filed), each with its extent. Between
  two calls \<open>D\<close> is empty.
\<close>

text \<open>A bucket's list: from the node \<open>p\<close> (a list head or a block) the \<open>next\<close> offsets
  lead through \<open>xs\<close>, every block points back at its predecessor, and the last node
  points at itself.\<close>

fun path :: "heap_state \<Rightarrow> addr \<Rightarrow> addr list \<Rightarrow> bool" where
  "path s p [] = True"
| "path s p (x # xs) =
     (NEXT_FREE_BLOCK s p = x \<and> x \<noteq> p \<and> PREV_FREE_BLOCK s x = p \<and> path s x xs)"

definition chain :: "heap_state \<Rightarrow> addr \<Rightarrow> addr list \<Rightarrow> bool" where
  "chain s p xs = (path s p xs \<and> IS_END s (last (p # xs)))"

definition bucket :: "heap_state \<Rightarrow> nat \<Rightarrow> addr" where
  "bucket s i = head s + 8 * int i"

definition F_of :: "(nat \<Rightarrow> addr list) \<Rightarrow> addr set" where
  "F_of L = (\<Union>i\<in>{..<LIST_TOTAL}. set (L i))"

text \<open>A free block: flag bits clear in the header, and a footer that repeats the size.\<close>

definition free_block :: "heap_state \<Rightarrow> addr \<Rightarrow> bool" where
  "free_block s a =
     (read32 (mem s) a AND 7 = 0 \<and>
      read32 (mem s) (a + BLOCK_SIZE s a - HEADER_SIZE) = BLOCK_SIZE s a)"

text \<open>The regions of the heap, each with its first address and its size: the listed free
  blocks and the client's blocks, with the size their header holds, and the detached
  regions.\<close>

definition regions ::
  "heap_state \<Rightarrow> addr set \<Rightarrow> (addr \<times> int) set \<Rightarrow> (nat \<Rightarrow> addr list) \<Rightarrow> (addr \<times> int) set" where
  "regions s A D L = (\<lambda>a. (a, BLOCK_SIZE s a)) ` (F_of L \<union> HEADER_ADDR ` A) \<union> D"

text \<open>The regions tile the heap from \<open>lo\<close> to \<open>hi\<close>: each is at least 16 bytes, a multiple
  of 8, starts 4 bytes before an 8-byte boundary, and is followed by another region or by
  the end of the heap; no two overlap.\<close>

definition tiling :: "addr \<Rightarrow> addr \<Rightarrow> (addr \<times> int) set \<Rightarrow> bool" where
  "tiling lo hi R =
     ((\<forall>(a, n)\<in>R. 16 \<le> n \<and> n mod 8 = 0 \<and> a mod 8 = 4 \<and> lo \<le> a \<and> a + n \<le> hi \<and>
                  (a + n = hi \<or> a + n \<in> fst ` R)) \<and>
      (lo = hi \<or> lo \<in> fst ` R) \<and>
      (\<forall>(a, n)\<in>R. \<forall>(b, m)\<in>R. (a, n) = (b, m) \<or> a + n \<le> b \<or> b + m \<le> a))"

definition heap_geom :: "heap_state \<Rightarrow> bool" where
  "heap_geom s =
     (0 < head s \<and> head s mod 8 = 0 \<and> first s = head s + 260 \<and> first s \<le> mem_brk s \<and>
      mem_brk s mod 8 = 4 \<and> mem_brk s \<le> mem_max_addr s \<and>
      mem_max_addr s - head s < 2147483648)"

text \<open>The words of the directory that are never written after \<^verbatim>\<open>mm_init\<close>: the word in
  front of each list head's \<open>next\<close> field, up to the word in front of the first block.\<close>

definition dir_zero :: "heap_state \<Rightarrow> bool" where
  "dir_zero s = (\<forall>i\<in>{0..32::int}. read32 (mem s) (head s + 8 * i) = 0)"

text \<open>\<open>SZ\<close> is the part of the invariant that reads headers and footers only; \<open>INVD\<close> adds
  the links of the lists; \<open>INV\<close> is the invariant between two calls.\<close>

definition SZ ::
  "heap_state \<Rightarrow> addr set \<Rightarrow> (addr \<times> int) set \<Rightarrow> (nat \<Rightarrow> addr list) \<Rightarrow> bool" where
  "SZ s A D L =
     (heap_geom s \<and> dir_zero s \<and>
      (\<forall>p\<in>A. IS_SET s (HEADER_ADDR p)) \<and>
      (\<forall>i<LIST_TOTAL. sorted (map (BLOCK_SIZE s) (L i)) \<and> distinct (L i) \<and>
          (\<forall>a\<in>set (L i). free_block s a \<and> search_free_list s (BLOCK_SIZE s a) = bucket s i)) \<and>
      tiling (first s) (mem_brk s) (regions s A D L) \<and>
      (\<forall>a\<in>F_of L. a + BLOCK_SIZE s a \<notin> F_of L) \<and>
      fst ` D \<inter> (F_of L \<union> HEADER_ADDR ` A) = {})"

definition INVD ::
  "heap_state \<Rightarrow> addr set \<Rightarrow> (addr \<times> int) set \<Rightarrow> (nat \<Rightarrow> addr list) \<Rightarrow> bool" where
  "INVD s A D L = (SZ s A D L \<and> (\<forall>i<LIST_TOTAL. chain s (bucket s i) (L i)))"

definition INV :: "heap_state \<Rightarrow> addr set \<Rightarrow> (nat \<Rightarrow> addr list) \<Rightarrow> bool" where
  "INV s A L = INVD s A {} L"

text \<open>The bytes the invariant reads. \<open>szbytes\<close>: the headers of the listed and of the
  client's blocks, the footers of the listed blocks and the fixed words of the directory.
  \<open>lkbytes\<close>: the \<open>next\<close> field of every list head and the two link fields of every
  listed block. \<open>dbytes\<close>: the bytes of the detached regions. \<open>pbytes\<close>: the payload
  bytes of the client's blocks.\<close>

definition sizeword :: "heap_state \<Rightarrow> addr set \<Rightarrow> (nat \<Rightarrow> addr list) \<Rightarrow> addr \<Rightarrow> bool" where
  "sizeword s A L a =
     ((\<exists>i\<in>{0..32::int}. a = head s + 8 * i) \<or> a \<in> F_of L \<or>
      (\<exists>c\<in>F_of L. a = c + BLOCK_SIZE s c - HEADER_SIZE) \<or> a \<in> HEADER_ADDR ` A)"

definition szbytes :: "heap_state \<Rightarrow> addr set \<Rightarrow> (nat \<Rightarrow> addr list) \<Rightarrow> addr set" where
  "szbytes s A L = {x. \<exists>a. sizeword s A L a \<and> a \<le> x \<and> x < a + 4}"

definition lkbytes :: "heap_state \<Rightarrow> (nat \<Rightarrow> addr list) \<Rightarrow> addr set" where
  "lkbytes s L =
     {x. (\<exists>i<LIST_TOTAL. bucket s i + 4 \<le> x \<and> x < bucket s i + 8) \<or>
         (\<exists>c\<in>F_of L. c + 4 \<le> x \<and> x < c + 12)}"

definition dbytes :: "(addr \<times> int) set \<Rightarrow> addr set" where
  "dbytes D = {x. \<exists>(b, n)\<in>D. b \<le> x \<and> x < b + n}"

definition pbytes :: "heap_state \<Rightarrow> addr set \<Rightarrow> addr set" where
  "pbytes s A =
     {x. \<exists>p\<in>A. p \<le> x \<and> x < HEADER_ADDR p + BLOCK_SIZE s (HEADER_ADDR p)}"

text \<open>The nodes of one list (its head and its blocks) are pairwise at least 12 bytes
  apart, so that their link fields do not overlap.\<close>

definition sep12 :: "addr list \<Rightarrow> bool" where
  "sep12 ns = (distinct ns \<and> (\<forall>u\<in>set ns. \<forall>v\<in>set ns. u \<noteq> v \<longrightarrow> u + 12 \<le> v \<or> v + 12 \<le> u))"

text \<open>Two states that differ in memory only.\<close>

definition same_fields :: "heap_state \<Rightarrow> heap_state \<Rightarrow> bool" where
  "same_fields s s' =
     (mem_start_brk s' = mem_start_brk s \<and> mem_brk s' = mem_brk s \<and>
      mem_max_addr s' = mem_max_addr s \<and> head s' = head s \<and> first s' = first s)"

section \<open>A concrete heap\<close>

text \<open>A fresh heap for the concrete runs below: the region starts at address 65536, is
  empty, and may grow by 20 MB (the \<^verbatim>\<open>MAX_HEAP\<close> the header comment of \<^verbatim>\<open>mm.c\<close> refers to).\<close>

definition fresh_heap :: heap_state where
  "fresh_heap = \<lparr>mem = (\<lambda>_. 0), mem_start_brk = 65536, mem_brk = 65536,
                   mem_max_addr = 21037056, head = 0, first = 0\<rparr>"

section \<open>Words in memory\<close>

lemma i32_id: "- 2147483648 \<le> x \<Longrightarrow> x < 2147483648 \<Longrightarrow> i32 x = x"
  unfolding i32_def
  by (simp add: sint_sbintrunc' signed_take_bit_int_eq_self)

lemma i32_range: "- 2147483648 \<le> i32 x \<and> i32 x < 2147483648"
  unfolding i32_def using sint_ge[of "word_of_int x :: 32 word"] sint_lt[of "word_of_int x :: 32 word"]
  by simp

lemma i32_mod: "i32 (x mod 4294967296) = i32 x"
proof -
  have "word_of_int (x mod 4294967296) = (word_of_int x :: 32 word)"
    by (simp add: word_of_int_eq_iff take_bit_eq_mod)
  then show ?thesis by (simp add: i32_def)
qed

lemma bytes_recompose:
  "(v mod 256) + 256 * ((v div 256) mod 256) + 65536 * ((v div 65536) mod 256)
     + 16777216 * ((v div 16777216) mod 256) = (v::int) mod 4294967296"
proof -
  have d1: "v div 65536 = (v div 256) div 256"
    using zdiv_zmult2_eq[of 256 v 256] by simp
  have d2: "v div 16777216 = ((v div 256) div 256) div 256"
    using zdiv_zmult2_eq[of 256 v 65536] d1 by simp
  have m: "v mod 4294967296 = v mod 256 + 256 * ((v div 256) mod 16777216)"
    using zmod_zmult2_eq[of 16777216 v 256] by simp
  have m2: "(v div 256) mod 16777216 =
      (v div 256) mod 256 + 256 * (((v div 256) div 256) mod 65536)"
    using zmod_zmult2_eq[of 65536 "v div 256" 256] by simp
  have m3: "((v div 256) div 256) mod 65536 =
      ((v div 256) div 256) mod 256 + 256 * ((((v div 256) div 256) div 256) mod 256)"
    using zmod_zmult2_eq[of 256 "(v div 256) div 256" 256] by simp
  show ?thesis unfolding d1 d2 m m2 m3 by simp
qed

lemma uint_byte_of_int: "uint (word_of_int v :: byte) = v mod 256"
  by (simp add: uint_word_of_int)

lemma read32_write32_same: "read32 (write32 m a v) a = i32 v"
  unfolding read32_def write32_def
  by (simp add: uint_byte_of_int bytes_recompose i32_mod)

lemma write32_other: "x < a \<or> a + 4 \<le> x \<Longrightarrow> write32 m a v x = m x"
  unfolding write32_def by auto

lemma read32_cong: "m' a = m a \<Longrightarrow> m' (a + 1) = m (a + 1) \<Longrightarrow> m' (a + 2) = m (a + 2) \<Longrightarrow>
   m' (a + 3) = m (a + 3) \<Longrightarrow> read32 m' a = read32 m a"
  unfolding read32_def by simp

lemma read32_eqI: "(\<And>x. a \<le> x \<Longrightarrow> x < a + 4 \<Longrightarrow> m' x = m x) \<Longrightarrow> read32 m' a = read32 m a"
  by (rule read32_cong) auto

lemma read32_write32_other: "b + 4 \<le> a \<or> a + 4 \<le> b \<Longrightarrow> read32 (write32 m a v) b = read32 m b"
  by (rule read32_eqI) (auto simp: write32_other)

lemma read32_range: "- 2147483648 \<le> read32 m a \<and> read32 m a < 2147483648"
  unfolding read32_def by (rule i32_range)

lemma and_7: "(x::int) AND 7 = x mod 8"
  using take_bit_eq_mask[of 3 x] by (simp add: take_bit_eq_mod mask_eq_exp_minus_1)

lemma and_m8: "(x::int) AND (- 8) = x - x mod 8"
proof -
  have z: "(x AND mask 3) AND (x AND NOT (mask 3)) = 0"
    by (simp add: bit_eq_iff bit_simps)
  have "(x AND mask 3) + (x AND NOT (mask 3)) = (x AND mask 3) OR (x AND NOT (mask 3))"
    by (rule disjunctive_add_eq_or) (rule z)
  also have "\<dots> = x"
    by (simp add: bit_eq_iff bit_simps, blast)
  finally have "x = (x AND 7) + (x AND -8)"
    by (simp add: mask_eq_exp_minus_1 flip: minus_exp_eq_not_mask)
  then show ?thesis using and_7[of x] by linarith
qed

lemma or_1: "(x::int) mod 8 = 0 \<Longrightarrow> x OR 1 = x + 1"
proof -
  assume "x mod 8 = 0"
  then have "even x" by presburger
  then have "x AND 1 = 0" by (simp add: and_one_eq)
  then have "x + 1 = x OR 1"
    by (rule disjunctive_add_eq_or)
  then show ?thesis by simp
qed

section \<open>Bucket selection\<close>

lemma search_loop_stop: "\<not> (ordr > 1 \<and> n < LIST_TOTAL) \<Longrightarrow> search_loop ordr n list = list"
  by (subst search_loop.simps) auto

lemma search_loop_step:
  "ordr > 1 \<Longrightarrow> n < LIST_TOTAL \<Longrightarrow>
   search_loop ordr n list = search_loop (drop_bit 1 ordr) (n + 1) (NEXT_LIST_HEADER list)"
  by (subst search_loop.simps) auto

lemma search_loop_ge: "list \<le> search_loop ordr n list"
proof (induction ordr n list rule: search_loop.induct)
  case (1 ordr list_num list)
  show ?case
  proof (cases "ordr > 1 \<and> list_num < LIST_TOTAL")
    case True
    then have "NEXT_LIST_HEADER list \<le> search_loop ordr list_num list"
      using "1" search_loop_step[of ordr list_num list] by simp
    then show ?thesis by (simp add: NEXT_LIST_HEADER_def)
  next
    case False
    then show ?thesis using search_loop_stop[of ordr list_num list] by simp
  qed
qed

lemma search_loop_mono:
  "o1 \<le> o2 \<Longrightarrow> search_loop o1 n list \<le> search_loop o2 n list"
proof (induction o2 n list arbitrary: o1 rule: search_loop.induct)
  case (1 ordr list_num list)
  show ?case
  proof (cases "ordr > 1 \<and> list_num < LIST_TOTAL")
    case True
    then have r: "search_loop ordr list_num list =
        search_loop (drop_bit 1 ordr) (list_num + 1) (NEXT_LIST_HEADER list)"
      using search_loop_step by simp
    show ?thesis
    proof (cases "o1 > 1")
      case o1: True
      then have l: "search_loop o1 list_num list =
          search_loop (drop_bit 1 o1) (list_num + 1) (NEXT_LIST_HEADER list)"
        using True search_loop_step by simp
      have "drop_bit 1 o1 \<le> drop_bit 1 ordr"
        using "1.prems" by (simp add: drop_bit_eq_div zdiv_mono1)
      then show ?thesis using "1.IH" True l r by simp
    next
      case False
      then have "search_loop o1 list_num list = list"
        using search_loop_stop by simp
      moreover have "list \<le> NEXT_LIST_HEADER list" by (simp add: NEXT_LIST_HEADER_def)
      ultimately show ?thesis
        using r search_loop_ge[of "NEXT_LIST_HEADER list" "drop_bit 1 ordr" "list_num + 1"]
        by linarith
    qed
  next
    case False
    then have r: "search_loop ordr list_num list = list"
      using search_loop_stop by simp
    have "\<not> (o1 > 1 \<and> list_num < LIST_TOTAL)" using False "1.prems" by auto
    then have "search_loop o1 list_num list = list"
      using search_loop_stop by simp
    then show ?thesis using r by simp
  qed
qed

lemma search_free_list_mono: "s1 \<le> s2 \<Longrightarrow> search_free_list s s1 \<le> search_free_list s s2"
  unfolding search_free_list_def
  by (rule search_loop_mono) (simp add: drop_bit_eq_div zdiv_mono1)

text \<open>Claim C9. The bucket selection is monotone: for block sizes \<open>s1 \<le> s2\<close> the list
  head \<^verbatim>\<open>search_free_list\<close> computes for \<open>s1\<close> is not after the one it computes for
  \<open>s2\<close> (list heads are laid out in ascending order of their index). \<^verbatim>\<open>insert_into_list\<close>
  files a block under \<open>search_free_list (BLOCK_SIZE blkptr)\<close> and \<^verbatim>\<open>mm_malloc\<close> starts its
  ascending scan at \<open>search_free_list newsize\<close>, so a free block with
  \<open>newsize \<le> BLOCK_SIZE blkptr\<close> never lives in a bucket before the starting one.\<close>

theorem bucket_selection_monotone:
  "s1 \<le> s2 \<Longrightarrow> search_free_list s s1 \<le> search_free_list s s2"
  by (rule search_free_list_mono)

theorem bucket_selection_monotone_witness:
  "(24 :: int) \<le> 4104 \<and> search_free_list fresh_heap 24 \<le> search_free_list fresh_heap 4104"
  using bucket_selection_monotone[of 24 4104 fresh_heap] by simp

section \<open>Headers\<close>

lemma BLOCK_SIZE_eq: "BLOCK_SIZE s a = read32 (mem s) a - read32 (mem s) a mod 8"
  by (simp add: BLOCK_SIZE_def and_m8)

lemma NEXT_BLOCK_eq: "NEXT_BLOCK s a = a + BLOCK_SIZE s a"
  by (simp add: NEXT_BLOCK_def BLOCK_SIZE_def)

lemma IS_SET_eq: "IS_SET s a = (read32 (mem s) a mod 8 = 1)"
  by (simp add: IS_SET_def and_7)

lemma BLOCK_SIZE_mod8 [simp]: "BLOCK_SIZE s a mod 8 = 0"
  unfolding BLOCK_SIZE_eq by presburger

lemma BLOCK_SIZE_range: "- 2147483648 \<le> BLOCK_SIZE s a \<and> BLOCK_SIZE s a < 2147483648"
  using read32_range[of "mem s" a] unfolding BLOCK_SIZE_eq by presburger

lemma hdr_free: "read32 (mem s) a = n \<Longrightarrow> n mod 8 = 0 \<Longrightarrow> BLOCK_SIZE s a = n \<and> \<not> IS_SET s a"
  by (simp add: BLOCK_SIZE_eq IS_SET_eq)

lemma hdr_set: "read32 (mem s) a = n + 1 \<Longrightarrow> n mod 8 = 0 \<Longrightarrow> BLOCK_SIZE s a = n \<and> IS_SET s a"
  unfolding BLOCK_SIZE_eq IS_SET_eq by presburger

lemma free_flag_hdr: "read32 (mem s) a AND 7 = 0 \<Longrightarrow> read32 (mem s) a = BLOCK_SIZE s a"
  by (simp add: BLOCK_SIZE_eq and_7)

lemma free_flag_not_set: "read32 (mem s) a AND 7 = 0 \<Longrightarrow> \<not> IS_SET s a"
  by (simp add: IS_SET_def)

lemma IS_SET_hdr: "IS_SET s a \<Longrightarrow> read32 (mem s) a = BLOCK_SIZE s a + 1"
  by (simp add: BLOCK_SIZE_eq IS_SET_eq)

lemma hdr_cong:
  "read32 (mem s') a = read32 (mem s) a \<Longrightarrow>
   BLOCK_SIZE s' a = BLOCK_SIZE s a \<and> IS_SET s' a = IS_SET s a \<and> NEXT_BLOCK s' a = NEXT_BLOCK s a"
  by (simp add: BLOCK_SIZE_def IS_SET_def NEXT_BLOCK_def)

lemma IS_END_eq: "IS_END s p = (NEXT_FREE_BLOCK s p = p)"
  by (simp add: IS_END_def NEXT_FREE_BLOCK_def)

section \<open>Bucket selection: the list heads\<close>

lemma search_loop_bucket:
  "1 \<le> n \<Longrightarrow> n \<le> LIST_TOTAL \<Longrightarrow>
   \<exists>j. n + j \<le> LIST_TOTAL \<and> search_loop ordr n list = list + 8 * int j"
proof (induction ordr n list rule: search_loop.induct)
  case (1 ordr list_num list)
  show ?case
  proof (cases "ordr > 1 \<and> list_num < LIST_TOTAL")
    case True
    then obtain j where j: "list_num + 1 + j \<le> LIST_TOTAL"
        "search_loop (drop_bit 1 ordr) (list_num + 1) (NEXT_LIST_HEADER list) = NEXT_LIST_HEADER list + 8 * int j"
      using "1.IH" "1.prems" by auto
    have "search_loop ordr list_num list = list + 8 * int (Suc j)"
      using True j search_loop_step[of ordr list_num list] by (simp add: NEXT_LIST_HEADER_def)
    moreover have "list_num + Suc j \<le> LIST_TOTAL" using j by simp
    ultimately show ?thesis by blast
  next
    case False
    then have "search_loop ordr list_num list = list + 8 * int 0"
      using search_loop_stop[of ordr list_num list] by simp
    then show ?thesis using "1.prems" by (intro exI[of _ 0]) simp
  qed
qed

lemma search_free_list_bucket: "\<exists>i<LIST_TOTAL. search_free_list s n = bucket s i"
proof -
  obtain j where "1 + j \<le> LIST_TOTAL" "search_loop (drop_bit 4 n) 1 (head s) = head s + 8 * int j"
    using search_loop_bucket[of 1 "drop_bit 4 n" "head s"] by auto
  then show ?thesis unfolding search_free_list_def bucket_def by (intro exI[of _ j]) simp
qed

lemma search_free_list_cong: "head s' = head s \<Longrightarrow> search_free_list s' n = search_free_list s n"
  by (simp add: search_free_list_def)

lemma bucket_inj: "bucket s i = bucket s j \<Longrightarrow> i = j"
  by (simp add: bucket_def)

section \<open>Request sizes\<close>

lemma round_loop_total:
  "0 < t \<Longrightarrow> \<exists>r. round_loop t n = Some r \<and> n \<le> r \<and> t \<le> r \<and> (r = t \<or> r < 2 * n)"
proof (induction "n - t" arbitrary: t rule: less_induct)
  case less
  show ?case
  proof (cases "t < n")
    case True
    have "n - 2 * t < n - t" using True less.prems by simp
    then obtain r where r: "round_loop (2 * t) n = Some r" "n \<le> r" "2 * t \<le> r" "r = 2 * t \<or> r < 2 * n"
      using less.hyps[of "2 * t"] less.prems by auto
    have "round_loop t n = Some r"
      using True r by (subst round_loop.simps) (simp add: push_bit_eq_mult mult.commute)
    then show ?thesis using r True by auto
  next
    case False
    then have "round_loop t n = Some t" by (subst round_loop.simps) simp
    then show ?thesis using False by auto
  qed
qed

lemma sint_eq_uint32: "uint (w :: 32 word) < 2147483648 \<Longrightarrow> sint w = uint w"
proof -
  assume a: "uint w < 2147483648"
  have "sint w = i32 (uint w)" by (simp add: i32_def)
  also have "\<dots> = uint w" using a uint_ge_0[of w] by (intro i32_id) linarith+
  finally show ?thesis .
qed

lemma uint_and_not7: "uint (x AND NOT 7 :: 32 word) = uint x - uint x mod 8"
proof -
  have n: "uint (NOT 7 :: 32 word) = 4294967288" by simp
  have t8: "take_bit 32 (- 8 :: int) = 4294967288" by simp
  have tx: "take_bit 32 (uint x) = uint x"
    using uint_lt2p[of x] by (intro take_bit_int_eq_self) simp_all
  have m: "0 \<le> uint x mod 8 \<and> uint x mod 8 \<le> uint x"
    using uint_ge_0[of x] by presburger
  have r: "take_bit 32 (uint x - uint x mod 8) = uint x - uint x mod 8"
    using uint_lt2p[of x] m by (intro take_bit_int_eq_self) simp_all
  have "uint (x AND NOT 7) = uint x AND uint (NOT 7 :: 32 word)"
    by (simp only: uint_and)
  also have "\<dots> = take_bit 32 (uint x) AND take_bit 32 (- 8)"
    by (simp only: n t8 tx)
  also have "\<dots> = take_bit 32 (uint x AND (- 8))"
    by (simp only: take_bit_and)
  also have "\<dots> = uint x - uint x mod 8"
    by (simp only: and_m8 r)
  finally show ?thesis .
qed

lemma uint_plus_small:
  "uint (w :: 32 word) + k < 4294967296 \<Longrightarrow> 0 \<le> k \<Longrightarrow> uint (w + word_of_int k) = uint w + k"
proof -
  assume a: "uint w + k < 4294967296" and k: "0 \<le> k"
  have "uint (w + word_of_int k) = (uint w + uint (word_of_int k :: 32 word)) mod 2 ^ 32"
    by (simp add: uint_word_ariths)
  also have "uint (word_of_int k :: 32 word) = k mod 2 ^ 32"
    by (simp add: uint_word_of_int)
  also have "k mod 2 ^ 32 = k"
  proof (rule mod_pos_pos_trivial)
    show "0 \<le> k" by (rule k)
    have "k < 4294967296" using a uint_ge_0[of w] by linarith
    then show "k < 2 ^ 32" by simp
  qed
  also have "(uint w + k) mod 2 ^ 32 = uint w + k"
  proof (rule mod_pos_pos_trivial)
    show "0 \<le> uint w + k" using k uint_ge_0[of w] by linarith
    show "uint w + k < 2 ^ 32" using a by simp
  qed
  finally show ?thesis .
qed

lemma align_word:
  assumes le: "uint (w :: 32 word) \<le> 2147483636"
  shows "sint ((w + 11) AND NOT 7) = (uint w + 11) - (uint w + 11) mod 8"
proof -
  have u: "uint (w + 11) = uint w + 11"
    using uint_plus_small[of w 11] le by simp
  have v: "uint ((w + 11) AND NOT 7) = (uint w + 11) - (uint w + 11) mod 8"
    by (simp only: uint_and_not7 u)
  have "0 \<le> (uint w + 11) mod 8" by simp
  then have "(uint w + 11) - (uint w + 11) mod 8 < 2147483648"
    using le by linarith
  then show ?thesis
    using v sint_eq_uint32[of "(w + 11) AND NOT 7"] by simp
qed

lemma ALIGN_FOR_BLOCK_val:
  assumes le: "uint w \<le> 2147483636"
  shows "sint (ALIGN_FOR_BLOCK w) =
           (if uint w < 8 then 16 else (uint w + 11) - (uint w + 11) mod 8)"
proof (cases "w < 8")
  case True
  then have "uint w < 8" by (simp add: word_less_def)
  then show ?thesis using True by (simp add: ALIGN_FOR_BLOCK_def)
next
  case False
  then have ge: "\<not> uint w < 8" by (simp add: word_less_def)
  have "ALIGN_FOR_BLOCK w = (w + 11) AND NOT 7"
    using False by (simp add: ALIGN_FOR_BLOCK_def add.commute)
  then show ?thesis using ge align_word[OF le] by simp
qed

lemma ALIGN_FOR_BLOCK_int_val:
  assumes "0 \<le> d" "d \<le> 2147483636"
  shows "sint (ALIGN_FOR_BLOCK_int d) = (if d < 8 then 16 else (d + 11) - (d + 11) mod 8)"
proof (cases "d < 8")
  case True
  then show ?thesis by (simp add: ALIGN_FOR_BLOCK_int_def)
next
  case False
  have ud: "uint (word_of_int d :: 32 word) = d"
    using assms by (simp add: uint_word_of_int)
  have "ALIGN_FOR_BLOCK_int d = (word_of_int d + 11) AND NOT 7"
    using False by (simp add: ALIGN_FOR_BLOCK_int_def add.commute)
  then show ?thesis using False align_word[of "word_of_int d"] assms unfolding ud by simp
qed

lemma align_int_bounds:
  fixes x :: int
  assumes "0 \<le> x"
  shows "16 \<le> (if x < 8 then 16 else (x + 11) - (x + 11) mod 8) \<and>
         (if x < 8 then 16 else (x + 11) - (x + 11) mod 8) mod 8 = 0 \<and>
         x + 4 \<le> (if x < 8 then 16 else (x + 11) - (x + 11) mod 8) \<and>
         (if x < 8 then 16 else (x + 11) - (x + 11) mod 8) \<le> max 16 (x + 11)"
  using assms by presburger

lemma ALIGN_FOR_BLOCK_bounds:
  assumes "uint w \<le> 2147483636"
  shows "16 \<le> sint (ALIGN_FOR_BLOCK w) \<and> sint (ALIGN_FOR_BLOCK w) mod 8 = 0 \<and>
         uint w + 4 \<le> sint (ALIGN_FOR_BLOCK w) \<and>
         sint (ALIGN_FOR_BLOCK w) \<le> max 16 (uint w + 11)"
  using align_int_bounds[of "uint w"] uint_ge_0[of w] unfolding ALIGN_FOR_BLOCK_val[OF assms]
  by blast

section \<open>Tilings\<close>

lemma tiling_all:
  assumes t: "tiling lo hi R" and r: "(a, n) \<in> R"
  shows "16 \<le> n \<and> n mod 8 = 0 \<and> a mod 8 = 4 \<and> lo \<le> a \<and> a + n \<le> hi \<and>
         (a + n = hi \<or> a + n \<in> fst ` R)"
proof -
  from t have "\<forall>(a, n)\<in>R. 16 \<le> n \<and> n mod 8 = 0 \<and> a mod 8 = 4 \<and> lo \<le> a \<and> a + n \<le> hi \<and>
                  (a + n = hi \<or> a + n \<in> fst ` R)"
    unfolding tiling_def by (rule conjunct1)
  from bspec[OF this r] show ?thesis by simp
qed

lemma tiling_in:
  "tiling lo hi R \<Longrightarrow> (a, n) \<in> R \<Longrightarrow>
   16 \<le> n \<and> n mod 8 = 0 \<and> a mod 8 = 4 \<and> lo \<le> a \<and> a + n \<le> hi"
  using tiling_all[of lo hi R a n] by simp

lemma tiling_next:
  "tiling lo hi R \<Longrightarrow> (a, n) \<in> R \<Longrightarrow> a + n = hi \<or> a + n \<in> fst ` R"
  using tiling_all[of lo hi R a n] by simp

lemma tiling_start: "tiling lo hi R \<Longrightarrow> lo = hi \<or> lo \<in> fst ` R"
  unfolding tiling_def by blast

lemma tiling_disj:
  assumes t: "tiling lo hi R" and r: "(a, n) \<in> R" and r': "(b, m) \<in> R"
  shows "(a, n) = (b, m) \<or> a + n \<le> b \<or> b + m \<le> a"
proof -
  from t have "\<forall>(a, n)\<in>R. \<forall>(b, m)\<in>R. (a, n) = (b, m) \<or> a + n \<le> b \<or> b + m \<le> a"
    unfolding tiling_def by simp
  from bspec[OF bspec[OF this r, simplified] r'] show ?thesis by simp
qed

lemma tiling_fun:
  assumes "tiling lo hi R" "(a, n) \<in> R" "(a, m) \<in> R"
  shows "n = m"
  using tiling_disj[OF assms] tiling_in[OF assms(1,2)] tiling_in[OF assms(1,3)] by auto

lemma tilingI:
  assumes "\<And>a n. (a, n) \<in> R \<Longrightarrow>
             16 \<le> n \<and> n mod 8 = 0 \<and> a mod 8 = 4 \<and> lo \<le> a \<and> a + n \<le> hi \<and>
             (a + n = hi \<or> a + n \<in> fst ` R)"
    and "lo = hi \<or> lo \<in> fst ` R"
    and "\<And>a n b m. (a, n) \<in> R \<Longrightarrow> (b, m) \<in> R \<Longrightarrow>
             (a, n) = (b, m) \<or> a + n \<le> b \<or> b + m \<le> a"
  shows "tiling lo hi R"
  unfolding tiling_def using assms by blast

lemma tiling_split:
  assumes t: "tiling lo hi R" and b: "(b, n) \<in> R"
    and k: "16 \<le> k" "k mod 8 = 0" "16 \<le> n - k"
  shows "tiling lo hi (insert (b, k) (insert (b + k, n - k) (R - {(b, n)})))"
proof (rule tilingI)
  let ?R = "insert (b, k) (insert (b + k, n - k) (R - {(b, n)}))"
  note bin = tiling_in[OF t b]
  have fstR: "fst ` R \<subseteq> fst ` ?R"
  proof
    fix x assume "x \<in> fst ` R"
    then obtain y where y: "(x, y) \<in> R" by auto
    show "x \<in> fst ` ?R"
    proof (cases "(x, y) = (b, n)")
      case True then show ?thesis by (auto simp: image_iff)
    next
      case False then show ?thesis using y by (auto simp: image_iff intro!: bexI[of _ "(x, y)"])
    qed
  qed
  show "lo = hi \<or> lo \<in> fst ` ?R" using tiling_start[OF t] fstR by blast
  fix a m assume am: "(a, m) \<in> ?R"
  show "16 \<le> m \<and> m mod 8 = 0 \<and> a mod 8 = 4 \<and> lo \<le> a \<and> a + m \<le> hi \<and>
        (a + m = hi \<or> a + m \<in> fst ` ?R)"
  proof -
    consider "(a, m) = (b, k)" | "(a, m) = (b + k, n - k)" | "(a, m) \<in> R" "(a, m) \<noteq> (b, n)"
      using am by auto
    then show ?thesis
    proof cases
      case 1
      then have "a + m \<in> fst ` ?R" by (auto simp: image_iff)
      then show ?thesis using 1 bin k by auto
    next
      case 2
      have "b + n = hi \<or> b + n \<in> fst ` ?R" using tiling_next[OF t b] fstR by blast
      moreover have "(b + k) mod 8 = 4" using bin k by presburger
      moreover have "(n - k) mod 8 = 0" using bin k by presburger
      ultimately show ?thesis using 2 bin k by auto
    next
      case 3
      then show ?thesis using tiling_in[OF t 3(1)] tiling_next[OF t 3(1)] fstR by blast
    qed
  qed
  fix c j assume cj: "(c, j) \<in> ?R"
  show "(a, m) = (c, j) \<or> a + m \<le> c \<or> c + j \<le> a"
  proof -
    have R1: "\<And>x y. (x, y) \<in> R \<Longrightarrow> (x, y) \<noteq> (b, n) \<Longrightarrow> x + y \<le> b \<or> b + n \<le> x"
      using tiling_disj[OF t _ b] by blast
    consider "(a, m) = (b, k)" | "(a, m) = (b + k, n - k)" | "(a, m) \<in> R" "(a, m) \<noteq> (b, n)"
      using am by auto
    then show ?thesis
    proof cases
      case 1
      consider "(c, j) = (b, k)" | "(c, j) = (b + k, n - k)" | "(c, j) \<in> R" "(c, j) \<noteq> (b, n)"
        using cj by auto
      then show ?thesis using 1 R1[of c j] k by cases auto
    next
      case 2
      consider "(c, j) = (b, k)" | "(c, j) = (b + k, n - k)" | "(c, j) \<in> R" "(c, j) \<noteq> (b, n)"
        using cj by auto
      then show ?thesis using 2 R1[of c j] k by cases auto
    next
      case 3
      consider "(c, j) = (b, k)" | "(c, j) = (b + k, n - k)" | "(c, j) \<in> R" "(c, j) \<noteq> (b, n)"
        using cj by auto
      then show ?thesis using 3 R1[of a m] k tiling_disj[OF t 3(1), of c j] by cases auto
    qed
  qed
qed

lemma tiling_merge:
  assumes t: "tiling lo hi R" and b: "(b, n) \<in> R" and c: "(b + n, m) \<in> R"
  shows "tiling lo hi (insert (b, n + m) (R - {(b, n), (b + n, m)}))"
proof (rule tilingI)
  let ?R = "insert (b, n + m) (R - {(b, n), (b + n, m)})"
  note bin = tiling_in[OF t b] and cin = tiling_in[OF t c]
  have fstR: "\<And>x. x \<in> fst ` R \<Longrightarrow> x \<noteq> b + n \<Longrightarrow> x \<in> fst ` ?R"
  proof -
    fix x assume "x \<in> fst ` R" and ne: "x \<noteq> b + n"
    then obtain y where y: "(x, y) \<in> R" by auto
    show "x \<in> fst ` ?R"
    proof (cases "x = b")
      case True then show ?thesis by (auto simp: image_iff)
    next
      case False then show ?thesis using y ne by (auto simp: image_iff intro!: bexI[of _ "(x, y)"])
    qed
  qed
  have "lo \<noteq> b + n" using bin by auto
  then show "lo = hi \<or> lo \<in> fst ` ?R" using tiling_start[OF t] fstR by blast
  fix a j assume aj: "(a, j) \<in> ?R"
  show "16 \<le> j \<and> j mod 8 = 0 \<and> a mod 8 = 4 \<and> lo \<le> a \<and> a + j \<le> hi \<and>
        (a + j = hi \<or> a + j \<in> fst ` ?R)"
  proof -
    consider "(a, j) = (b, n + m)" | "(a, j) \<in> R" "(a, j) \<noteq> (b, n)" "(a, j) \<noteq> (b + n, m)"
      using aj by auto
    then show ?thesis
    proof cases
      case 1
      have "b + n + m = hi \<or> b + n + m \<in> fst ` ?R"
        using tiling_next[OF t c] fstR[of "b + n + m"] cin by auto
      moreover have "(n + m) mod 8 = 0" using bin cin by presburger
      ultimately show ?thesis using 1 bin cin by (auto simp: add.assoc)
    next
      case 2
      have "a + j \<noteq> b + n"
        using tiling_disj[OF t 2(1) b] tiling_in[OF t 2(1)] bin 2 by auto
      then have "a + j = hi \<or> a + j \<in> fst ` ?R" using tiling_next[OF t 2(1)] fstR by blast
      then show ?thesis using tiling_in[OF t 2(1)] by blast
    qed
  qed
  fix d i assume di: "(d, i) \<in> ?R"
  show "(a, j) = (d, i) \<or> a + j \<le> d \<or> d + i \<le> a"
  proof -
    have R1: "\<And>x y. (x, y) \<in> R \<Longrightarrow> (x, y) \<noteq> (b, n) \<Longrightarrow> (x, y) \<noteq> (b + n, m) \<Longrightarrow>
                 x + y \<le> b \<or> b + n + m \<le> x"
      using tiling_disj[OF t _ b] tiling_disj[OF t _ c] bin cin tiling_in[OF t] by (smt (verit))
    consider "(a, j) = (b, n + m)" | "(a, j) \<in> R" "(a, j) \<noteq> (b, n)" "(a, j) \<noteq> (b + n, m)"
      using aj by auto
    then show ?thesis
    proof cases
      case 1
      consider "(d, i) = (b, n + m)" | "(d, i) \<in> R" "(d, i) \<noteq> (b, n)" "(d, i) \<noteq> (b + n, m)"
        using di by auto
      then show ?thesis using 1 R1[of d i] by cases auto
    next
      case 2
      consider "(d, i) = (b, n + m)" | "(d, i) \<in> R" "(d, i) \<noteq> (b, n)" "(d, i) \<noteq> (b + n, m)"
        using di by auto
      then show ?thesis using 2 R1[of a j] tiling_disj[OF t 2(1), of d i] by cases auto
    qed
  qed
qed

lemma tiling_grow:
  assumes t: "tiling lo hi R" and n: "16 \<le> n" "n mod 8 = 0" and hi: "hi mod 8 = 4" "lo \<le> hi"
  shows "tiling lo (hi + n) (insert (hi, n) R)"
proof (rule tilingI)
  let ?R = "insert (hi, n) R"
  show "lo = hi + n \<or> lo \<in> fst ` ?R" using tiling_start[OF t] by auto
  fix a m assume am: "(a, m) \<in> ?R"
  show "16 \<le> m \<and> m mod 8 = 0 \<and> a mod 8 = 4 \<and> lo \<le> a \<and> a + m \<le> hi + n \<and>
        (a + m = hi + n \<or> a + m \<in> fst ` ?R)"
  proof (cases "(a, m) = (hi, n)")
    case True then show ?thesis using n hi by auto
  next
    case False
    then have r: "(a, m) \<in> R" using am by auto
    show ?thesis using tiling_in[OF t r] tiling_next[OF t r] n by auto
  qed
  fix c j assume cj: "(c, j) \<in> ?R"
  show "(a, m) = (c, j) \<or> a + m \<le> c \<or> c + j \<le> a"
  proof (cases "(a, m) = (hi, n)")
    case True
    then show ?thesis using cj tiling_in[OF t, of c j] by auto
  next
    case False
    then have r: "(a, m) \<in> R" using am by auto
    show ?thesis
    proof (cases "(c, j) = (hi, n)")
      case True then show ?thesis using tiling_in[OF t r] by auto
    next
      case False
      then have "(c, j) \<in> R" using cj by auto
      then show ?thesis using tiling_disj[OF t r] by blast
    qed
  qed
qed

section \<open>Reading the invariant\<close>

lemma F_ofI: "i < LIST_TOTAL \<Longrightarrow> a \<in> set (L i) \<Longrightarrow> a \<in> F_of L"
  unfolding F_of_def by blast

lemma F_ofE: "a \<in> F_of L \<Longrightarrow> \<exists>i<LIST_TOTAL. a \<in> set (L i)"
  unfolding F_of_def by blast

lemma SZ_geom: "SZ s A D L \<Longrightarrow> heap_geom s"
  unfolding SZ_def by simp

lemma SZ_dir_zero: "SZ s A D L \<Longrightarrow> dir_zero s"
  unfolding SZ_def by simp

lemma SZ_tiling: "SZ s A D L \<Longrightarrow> tiling (first s) (mem_brk s) (regions s A D L)"
  unfolding SZ_def by simp

lemma SZ_A_set: "SZ s A D L \<Longrightarrow> p \<in> A \<Longrightarrow> IS_SET s (HEADER_ADDR p)"
  unfolding SZ_def by simp

lemma SZ_bucket:
  "SZ s A D L \<Longrightarrow> i < LIST_TOTAL \<Longrightarrow>
   sorted (map (BLOCK_SIZE s) (L i)) \<and> distinct (L i) \<and>
   (\<forall>a\<in>set (L i). free_block s a \<and> search_free_list s (BLOCK_SIZE s a) = bucket s i)"
  unfolding SZ_def by simp

lemma SZ_noadj: "SZ s A D L \<Longrightarrow> a \<in> F_of L \<Longrightarrow> a + BLOCK_SIZE s a \<notin> F_of L"
  unfolding SZ_def by simp

lemma SZ_D_disj: "SZ s A D L \<Longrightarrow> (b, n) \<in> D \<Longrightarrow> b \<notin> F_of L \<and> b \<notin> HEADER_ADDR ` A"
  unfolding SZ_def by force

lemma SZ_F_free:
  assumes "SZ s A D L" "a \<in> F_of L"
  shows "free_block s a"
proof -
  obtain i where "i < LIST_TOTAL" "a \<in> set (L i)" using F_ofE[OF assms(2)] by blast
  then show ?thesis using SZ_bucket[OF assms(1)] by blast
qed

lemma SZ_F_bucket:
  "SZ s A D L \<Longrightarrow> i < LIST_TOTAL \<Longrightarrow> a \<in> set (L i) \<Longrightarrow>
   search_free_list s (BLOCK_SIZE s a) = bucket s i"
  using SZ_bucket by blast

lemma SZ_F_unique:
  assumes "SZ s A D L" "i < LIST_TOTAL" "a \<in> set (L i)" "j < LIST_TOTAL" "a \<in> set (L j)"
  shows "i = j"
  using SZ_F_bucket[OF assms(1,2,3)] SZ_F_bucket[OF assms(1,4,5)] bucket_inj[of s i j] by simp

lemma free_block_not_set: "free_block s a \<Longrightarrow> \<not> IS_SET s a"
  unfolding free_block_def by (simp add: free_flag_not_set)

lemma free_block_hdr: "free_block s a \<Longrightarrow> read32 (mem s) a = BLOCK_SIZE s a"
  unfolding free_block_def using free_flag_hdr[of s a] by simp

lemma free_block_ftr:
  "free_block s a \<Longrightarrow> read32 (mem s) (a + BLOCK_SIZE s a - 4) = BLOCK_SIZE s a"
  unfolding free_block_def by simp

lemma SZ_F_A: "SZ s A D L \<Longrightarrow> a \<in> F_of L \<Longrightarrow> a \<notin> HEADER_ADDR ` A"
  using SZ_F_free free_block_not_set SZ_A_set by blast

lemma region_F: "a \<in> F_of L \<Longrightarrow> (a, BLOCK_SIZE s a) \<in> regions s A D L"
  unfolding regions_def by blast

lemma region_A: "p \<in> A \<Longrightarrow> (HEADER_ADDR p, BLOCK_SIZE s (HEADER_ADDR p)) \<in> regions s A D L"
  unfolding regions_def by blast

lemma region_D: "r \<in> D \<Longrightarrow> r \<in> regions s A D L"
  unfolding regions_def by blast

lemma regionE:
  "(a, n) \<in> regions s A D L \<Longrightarrow>
   (a \<in> F_of L \<and> n = BLOCK_SIZE s a) \<or> (a \<in> HEADER_ADDR ` A \<and> n = BLOCK_SIZE s a) \<or> (a, n) \<in> D"
  unfolding regions_def by blast

lemma SZ_region_in:
  "SZ s A D L \<Longrightarrow> (a, n) \<in> regions s A D L \<Longrightarrow>
   16 \<le> n \<and> n mod 8 = 0 \<and> a mod 8 = 4 \<and> first s \<le> a \<and> a + n \<le> mem_brk s"
  using tiling_in[OF SZ_tiling] by blast

lemma SZ_region_sep:
  assumes "SZ s A D L" "(a, n) \<in> regions s A D L" "(b, m) \<in> regions s A D L" "a \<noteq> b"
  shows "a + n \<le> b \<or> b + m \<le> a"
  using tiling_disj[OF SZ_tiling[OF assms(1)] assms(2,3)] assms(4) by simp

lemma SZ_region_fun:
  "SZ s A D L \<Longrightarrow> (a, n) \<in> regions s A D L \<Longrightarrow> (a, m) \<in> regions s A D L \<Longrightarrow> n = m"
  using tiling_fun[OF SZ_tiling] by blast

lemma SZ_extent_unique:
  assumes "SZ s A D L" "(a, n) \<in> regions s A D L" "(b, m) \<in> regions s A D L"
    "a \<le> x" "x < a + n" "b \<le> x" "x < b + m"
  shows "a = b"
  using SZ_region_sep[OF assms(1,2,3)] assms(4-7) by force

lemma SZ_F_in:
  assumes "SZ s A D L" "a \<in> F_of L"
  shows "16 \<le> BLOCK_SIZE s a \<and> a mod 8 = 4 \<and> first s \<le> a \<and> a + BLOCK_SIZE s a \<le> mem_brk s"
  using SZ_region_in[OF assms(1) region_F[OF assms(2)]] by simp

lemma SZ_A_in:
  assumes "SZ s A D L" "p \<in> A"
  shows "16 \<le> BLOCK_SIZE s (HEADER_ADDR p) \<and> HEADER_ADDR p mod 8 = 4 \<and> first s \<le> HEADER_ADDR p \<and>
         HEADER_ADDR p + BLOCK_SIZE s (HEADER_ADDR p) \<le> mem_brk s"
  using SZ_region_in[OF assms(1) region_A[OF assms(2)]] by simp

lemma SZ_D_in:
  assumes "SZ s A D L" "(b, n) \<in> D"
  shows "16 \<le> n \<and> n mod 8 = 0 \<and> b mod 8 = 4 \<and> first s \<le> b \<and> b + n \<le> mem_brk s"
  using SZ_region_in[OF assms(1) region_D[OF assms(2)]] by simp

section \<open>The bytes the invariant reads\<close>

lemma szbytes_cases:
  assumes sz: "SZ s A D L" and x: "x \<in> szbytes s A L"
  shows "x < first s \<or>
         (\<exists>c\<in>F_of L. (c \<le> x \<and> x < c + 4) \<or> (c + BLOCK_SIZE s c - 4 \<le> x \<and> x < c + BLOCK_SIZE s c)) \<or>
         (\<exists>p\<in>A. HEADER_ADDR p \<le> x \<and> x < p)"
proof -
  obtain a where a: "sizeword s A L a" "a \<le> x" "x < a + 4"
    using x unfolding szbytes_def by blast
  have g: "first s = head s + 260" using SZ_geom[OF sz] unfolding heap_geom_def by simp
  from a(1) consider i where "i \<in> {0..32::int}" "a = head s + 8 * i"
    | "a \<in> F_of L" | c where "c \<in> F_of L" "a = c + BLOCK_SIZE s c - 4"
    | "a \<in> HEADER_ADDR ` A"
    unfolding sizeword_def by blast
  then show ?thesis
  proof cases
    case 1 then show ?thesis using a g by auto
  next
    case 2 then show ?thesis using a by blast
  next
    case 3 then show ?thesis using a by force
  next
    case 4
    then obtain p where "p \<in> A" "a = HEADER_ADDR p" by blast
    then show ?thesis using a by (auto simp: HEADER_ADDR_def)
  qed
qed

lemma lkbytes_cases:
  assumes sz: "SZ s A D L" and x: "x \<in> lkbytes s L"
  shows "x < first s \<or> (\<exists>c\<in>F_of L. c + 4 \<le> x \<and> x < c + 12)"
proof -
  have g: "first s = head s + 260" using SZ_geom[OF sz] unfolding heap_geom_def by simp
  from x consider i where "i < LIST_TOTAL" "bucket s i + 4 \<le> x" "x < bucket s i + 8"
    | "\<exists>c\<in>F_of L. c + 4 \<le> x \<and> x < c + 12"
    unfolding lkbytes_def by blast
  then show ?thesis
  proof cases
    case 1 then show ?thesis using g by (auto simp: bucket_def)
  next
    case 2 then show ?thesis by blast
  qed
qed

lemma dbytes_not_sz:
  assumes sz: "SZ s A D L" and x: "x \<in> dbytes D"
  shows "x \<notin> szbytes s A L \<and> x \<notin> lkbytes s L"
proof -
  obtain b n where b: "(b, n) \<in> D" "b \<le> x" "x < b + n" using x unfolding dbytes_def by blast
  note bin = SZ_D_in[OF sz b(1)] and bd = SZ_D_disj[OF sz b(1)]
  have F: "\<And>c. c \<in> F_of L \<Longrightarrow> \<not> (c \<le> x \<and> x < c + BLOCK_SIZE s c)"
  proof
    fix c assume c: "c \<in> F_of L" and "c \<le> x \<and> x < c + BLOCK_SIZE s c"
    then have "c = b"
      using SZ_extent_unique[OF sz region_F[OF c] region_D[OF b(1)], of x] b by blast
    then show False using bd c by simp
  qed
  have Ap: "\<And>p. p \<in> A \<Longrightarrow> \<not> (HEADER_ADDR p \<le> x \<and> x < HEADER_ADDR p + BLOCK_SIZE s (HEADER_ADDR p))"
  proof
    fix p assume p: "p \<in> A" and "HEADER_ADDR p \<le> x \<and> x < HEADER_ADDR p + BLOCK_SIZE s (HEADER_ADDR p)"
    then have "HEADER_ADDR p = b"
      using SZ_extent_unique[OF sz region_A[OF p] region_D[OF b(1)], of x] b by blast
    then show False using bd p by blast
  qed
  have "x \<notin> szbytes s A L"
  proof
    assume "x \<in> szbytes s A L"
    from szbytes_cases[OF sz this] consider "x < first s"
      | c where "c \<in> F_of L"
          "(c \<le> x \<and> x < c + 4) \<or> (c + BLOCK_SIZE s c - 4 \<le> x \<and> x < c + BLOCK_SIZE s c)"
      | p where "p \<in> A" "HEADER_ADDR p \<le> x \<and> x < p"
      by blast
    then show False
    proof cases
      case 1 then show False using bin b by simp
    next
      case (2 c)
      then show False using F[of c] SZ_F_in[OF sz 2(1)] by auto
    next
      case (3 p)
      note p = 3(1) and h = 3(2)
      show False using h Ap[OF p] SZ_A_in[OF sz p] by (auto simp: HEADER_ADDR_def)
    qed
  qed
  moreover have "x \<notin> lkbytes s L"
  proof
    assume "x \<in> lkbytes s L"
    from lkbytes_cases[OF sz this] consider "x < first s"
      | c where "c \<in> F_of L" "c + 4 \<le> x \<and> x < c + 12"
      by blast
    then show False
    proof cases
      case 1 then show False using bin b by simp
    next
      case (2 c)
      then show False using F[of c] SZ_F_in[OF sz 2(1)] by auto
    qed
  qed
  ultimately show ?thesis by simp
qed

lemma pbytes_not_sz:
  assumes sz: "SZ s A D L" and x: "x \<in> pbytes s A"
  shows "x \<notin> szbytes s A L \<and> x \<notin> lkbytes s L"
proof -
  obtain q where q: "q \<in> A" "q \<le> x" "x < HEADER_ADDR q + BLOCK_SIZE s (HEADER_ADDR q)"
    using x unfolding pbytes_def by blast
  note qin = SZ_A_in[OF sz q(1)]
  have qx: "HEADER_ADDR q \<le> x" using q by (simp add: HEADER_ADDR_def)
  have F: "\<And>c. c \<in> F_of L \<Longrightarrow> \<not> (c \<le> x \<and> x < c + BLOCK_SIZE s c)"
  proof
    fix c assume c: "c \<in> F_of L" and "c \<le> x \<and> x < c + BLOCK_SIZE s c"
    then have "c = HEADER_ADDR q"
      using SZ_extent_unique[OF sz region_F[OF c] region_A[OF q(1)], of x] q qx by blast
    then show False using SZ_F_A[OF sz c] q by blast
  qed
  have Ap: "\<And>p. p \<in> A \<Longrightarrow> HEADER_ADDR p \<le> x \<and> x < HEADER_ADDR p + BLOCK_SIZE s (HEADER_ADDR p)
              \<Longrightarrow> p = q"
  proof -
    fix p assume p: "p \<in> A" and "HEADER_ADDR p \<le> x \<and> x < HEADER_ADDR p + BLOCK_SIZE s (HEADER_ADDR p)"
    then have "HEADER_ADDR p = HEADER_ADDR q"
      using SZ_extent_unique[OF sz region_A[OF p] region_A[OF q(1)], of x] q qx by blast
    then show "p = q" by (simp add: HEADER_ADDR_def)
  qed
  have "x \<notin> szbytes s A L"
  proof
    assume "x \<in> szbytes s A L"
    from szbytes_cases[OF sz this] consider "x < first s"
      | c where "c \<in> F_of L"
          "(c \<le> x \<and> x < c + 4) \<or> (c + BLOCK_SIZE s c - 4 \<le> x \<and> x < c + BLOCK_SIZE s c)"
      | p where "p \<in> A" "HEADER_ADDR p \<le> x \<and> x < p"
      by blast
    then show False
    proof cases
      case 1 then show False using qin qx by simp
    next
      case (2 c)
      then show False using F[of c] SZ_F_in[OF sz 2(1)] by auto
    next
      case (3 p)
      note p = 3(1) and h = 3(2)
      have "p = q" using h Ap[OF p] SZ_A_in[OF sz p] by (auto simp: HEADER_ADDR_def)
      then show False using h q by simp
    qed
  qed
  moreover have "x \<notin> lkbytes s L"
  proof
    assume "x \<in> lkbytes s L"
    from lkbytes_cases[OF sz this] consider "x < first s"
      | c where "c \<in> F_of L" "c + 4 \<le> x \<and> x < c + 12"
      by blast
    then show False
    proof cases
      case 1 then show False using qin qx by simp
    next
      case (2 c)
      then show False using F[of c] SZ_F_in[OF sz 2(1)] by auto
    qed
  qed
  ultimately show ?thesis by simp
qed

lemma lkbytes_not_sz:
  assumes sz: "SZ s A D L" and x: "x \<in> lkbytes s L"
  shows "x \<notin> szbytes s A L"
proof
  assume xs: "x \<in> szbytes s A L"
  have g: "first s = head s + 260" using SZ_geom[OF sz] unfolding heap_geom_def by simp
  from x consider i where "i < LIST_TOTAL" "bucket s i + 4 \<le> x" "x < bucket s i + 8"
    | c where "c \<in> F_of L" "c + 4 \<le> x" "x < c + 12"
    unfolding lkbytes_def by blast
  then show False
  proof cases
    case 1
    obtain a where a: "sizeword s A L a" "a \<le> x" "x < a + 4"
      using xs unfolding szbytes_def by blast
    from a(1) consider j where "j \<in> {0..32::int}" "a = head s + 8 * j"
      | "a \<in> F_of L" | c where "c \<in> F_of L" "a = c + BLOCK_SIZE s c - 4"
      | "a \<in> HEADER_ADDR ` A"
      unfolding sizeword_def by blast
    then show False
    proof cases
      case 1
      then show ?thesis using \<open>bucket s i + 4 \<le> x\<close> \<open>x < bucket s i + 8\<close> a
        unfolding bucket_def by presburger
    next
      case 2
      then show ?thesis using SZ_F_in[OF sz 2] 1 a g by (auto simp: bucket_def)
    next
      case 3
      then show ?thesis using SZ_F_in[OF sz 3(1)] 1 a g by (auto simp: bucket_def)
    next
      case 4
      then obtain p where "p \<in> A" "a = HEADER_ADDR p" by blast
      then show ?thesis using SZ_A_in[OF sz \<open>p \<in> A\<close>] 1 a g by (auto simp: bucket_def)
    qed
  next
    case 2
    note cF = 2(1) and c4 = 2(2) and c12 = 2(3)
    note cin = SZ_F_in[OF sz cF]
    from szbytes_cases[OF sz xs] consider "x < first s"
      | d where "d \<in> F_of L"
          "(d \<le> x \<and> x < d + 4) \<or> (d + BLOCK_SIZE s d - 4 \<le> x \<and> x < d + BLOCK_SIZE s d)"
      | p where "p \<in> A" "HEADER_ADDR p \<le> x \<and> x < p"
      by blast
    then show False
    proof cases
      case 1 then show False using cin c4 by simp
    next
      case (2 d)
      note d = 2(1) and h = 2(2)
      from h have "d \<le> x \<and> x < d + BLOCK_SIZE s d" using SZ_F_in[OF sz d] by auto
      then have "d = c"
        using SZ_extent_unique[OF sz region_F[OF d] region_F[OF cF], of x] c4 c12 cin by force
      then show False using h \<open>c + 4 \<le> x\<close> \<open>x < c + 12\<close> cin by auto
    next
      case (3 p)
      note p = 3(1) and h = 3(2)
      from h have "HEADER_ADDR p \<le> x \<and> x < HEADER_ADDR p + BLOCK_SIZE s (HEADER_ADDR p)"
        using SZ_A_in[OF sz p] by (auto simp: HEADER_ADDR_def)
      then have "HEADER_ADDR p = c"
        using SZ_extent_unique[OF sz region_A[OF p] region_F[OF cF], of x] c4 c12 cin by force
      then show False using SZ_F_A[OF sz cF] p by blast
    qed
  qed
qed

section \<open>Frames\<close>

lemma read32_frame:
  "(\<And>x. a \<le> x \<Longrightarrow> x < a + 4 \<Longrightarrow> mem s' x = mem s x) \<Longrightarrow> read32 (mem s') a = read32 (mem s) a"
  by (rule read32_eqI)

lemma sizeword_read:
  assumes "\<forall>x\<in>szbytes s A L. mem s' x = mem s x" "sizeword s A L a"
  shows "read32 (mem s') a = read32 (mem s) a"
proof (rule read32_frame)
  fix x assume "a \<le> x" "x < a + 4"
  then have "x \<in> szbytes s A L" using assms(2) unfolding szbytes_def by blast
  then show "mem s' x = mem s x" using assms(1) by blast
qed

lemma sizeword_F: "a \<in> F_of L \<Longrightarrow> sizeword s A L a"
  unfolding sizeword_def by blast

lemma sizeword_ftr: "c \<in> F_of L \<Longrightarrow> sizeword s A L (c + BLOCK_SIZE s c - 4)"
  unfolding sizeword_def by blast

lemma sizeword_A: "p \<in> A \<Longrightarrow> sizeword s A L (HEADER_ADDR p)"
  unfolding sizeword_def by blast

lemma sizeword_dir: "0 \<le> i \<Longrightarrow> i \<le> 32 \<Longrightarrow> sizeword s A L (head s + 8 * i)"
  unfolding sizeword_def by auto

lemma free_block_cong:
  assumes "read32 (mem s') a = read32 (mem s) a"
    "read32 (mem s') (a + BLOCK_SIZE s a - 4) = read32 (mem s) (a + BLOCK_SIZE s a - 4)"
  shows "free_block s' a = free_block s a"
  using assms hdr_cong[OF assms(1)] unfolding free_block_def by simp

lemma SZ_frame:
  assumes sz: "SZ s A D L" and sf: "same_fields s s'"
    and fr: "\<forall>x\<in>szbytes s A L. mem s' x = mem s x"
  shows "SZ s' A D L"
proof -
  note rd = sizeword_read[OF fr]
  have f: "head s' = head s" "first s' = first s" "mem_brk s' = mem_brk s"
    "mem_max_addr s' = mem_max_addr s"
    using sf unfolding same_fields_def by simp_all
  have bsF: "\<And>a. a \<in> F_of L \<Longrightarrow> BLOCK_SIZE s' a = BLOCK_SIZE s a"
    using hdr_cong[OF rd[OF sizeword_F]] by blast
  have bsA: "\<And>p. p \<in> A \<Longrightarrow> BLOCK_SIZE s' (HEADER_ADDR p) = BLOCK_SIZE s (HEADER_ADDR p)"
    using hdr_cong[OF rd[OF sizeword_A]] by blast
  have fb: "\<And>a. a \<in> F_of L \<Longrightarrow> free_block s' a = free_block s a"
    using free_block_cong[OF rd[OF sizeword_F] rd[OF sizeword_ftr]] by blast
  have g: "heap_geom s'" using SZ_geom[OF sz] f unfolding heap_geom_def by simp
  have dz: "dir_zero s'"
    unfolding dir_zero_def
  proof
    fix i :: int assume "i \<in> {0..32}"
    then have "read32 (mem s') (head s + 8 * i) = read32 (mem s) (head s + 8 * i)"
      using rd[OF sizeword_dir[of i]] by simp
    then show "read32 (mem s') (head s' + 8 * i) = 0"
      using SZ_dir_zero[OF sz] \<open>i \<in> {0..32}\<close> f unfolding dir_zero_def by simp
  qed
  have st: "\<forall>p\<in>A. IS_SET s' (HEADER_ADDR p)"
    using SZ_A_set[OF sz] hdr_cong[OF rd[OF sizeword_A]] by blast
  have bk: "\<forall>i<LIST_TOTAL. sorted (map (BLOCK_SIZE s') (L i)) \<and> distinct (L i) \<and>
          (\<forall>a\<in>set (L i). free_block s' a \<and> search_free_list s' (BLOCK_SIZE s' a) = bucket s' i)"
  proof (intro allI impI)
    fix i assume i: "i < LIST_TOTAL"
    have m: "map (BLOCK_SIZE s') (L i) = map (BLOCK_SIZE s) (L i)"
      using bsF F_ofI[of i _ L, OF i] by (intro map_cong) auto
    have b: "bucket s' i = bucket s i" using f by (simp add: bucket_def)
    have 1: "sorted (map (BLOCK_SIZE s') (L i))" unfolding m using SZ_bucket[OF sz i] by simp
    have 2: "\<forall>a\<in>set (L i). free_block s' a \<and> search_free_list s' (BLOCK_SIZE s' a) = bucket s' i"
    proof
      fix a assume a: "a \<in> set (L i)"
      note aF = F_ofI[of i a L, OF i a]
      show "free_block s' a \<and> search_free_list s' (BLOCK_SIZE s' a) = bucket s' i"
        using SZ_bucket[OF sz i] a b bsF[OF aF] fb[OF aF] search_free_list_cong[OF f(1)] by simp
    qed
    show "sorted (map (BLOCK_SIZE s') (L i)) \<and> distinct (L i) \<and>
          (\<forall>a\<in>set (L i). free_block s' a \<and> search_free_list s' (BLOCK_SIZE s' a) = bucket s' i)"
      using 1 2 SZ_bucket[OF sz i] by simp
  qed
  have rg: "regions s' A D L = regions s A D L"
  proof -
    have "(\<lambda>a. (a, BLOCK_SIZE s' a)) ` (F_of L \<union> HEADER_ADDR ` A)
        = (\<lambda>a. (a, BLOCK_SIZE s a)) ` (F_of L \<union> HEADER_ADDR ` A)"
      using bsF bsA by (intro image_cong) auto
    then show ?thesis unfolding regions_def by simp
  qed
  have tl: "tiling (first s') (mem_brk s') (regions s' A D L)"
    using SZ_tiling[OF sz] rg f by simp
  have na: "\<forall>a\<in>F_of L. a + BLOCK_SIZE s' a \<notin> F_of L"
    using SZ_noadj[OF sz] bsF by simp
  have dd: "fst ` D \<inter> (F_of L \<union> HEADER_ADDR ` A) = {}"
    using sz unfolding SZ_def by simp
  show ?thesis unfolding SZ_def using g dz st bk tl na dd by simp
qed

lemma frame_bytes_same:
  assumes sz: "SZ s A D L" and sf: "same_fields s s'"
    and fr: "\<forall>x\<in>szbytes s A L. mem s' x = mem s x"
  shows "szbytes s' A L = szbytes s A L \<and> pbytes s' A = pbytes s A \<and> lkbytes s' L = lkbytes s L"
proof -
  note rd = sizeword_read[OF fr]
  have f: "head s' = head s" using sf unfolding same_fields_def by simp
  have bsF: "\<And>a. a \<in> F_of L \<Longrightarrow> BLOCK_SIZE s' a = BLOCK_SIZE s a"
    using hdr_cong[OF rd[OF sizeword_F]] by blast
  have bsA: "\<And>p. p \<in> A \<Longrightarrow> BLOCK_SIZE s' (HEADER_ADDR p) = BLOCK_SIZE s (HEADER_ADDR p)"
    using hdr_cong[OF rd[OF sizeword_A]] by blast
  have "\<And>a. sizeword s' A L a = sizeword s A L a"
    unfolding sizeword_def using f bsF by auto
  then have 1: "szbytes s' A L = szbytes s A L" unfolding szbytes_def by simp
  have 2: "pbytes s' A = pbytes s A" unfolding pbytes_def using bsA by auto
  have 3: "lkbytes s' L = lkbytes s L" unfolding lkbytes_def bucket_def using f by simp
  show ?thesis using 1 2 3 by simp
qed

section \<open>Links\<close>

lemma next_cong:
  assumes "\<And>x. p + 4 \<le> x \<Longrightarrow> x < p + 8 \<Longrightarrow> mem s' x = mem s x"
  shows "NEXT_FREE_BLOCK s' p = NEXT_FREE_BLOCK s p \<and> IS_END s' p = IS_END s p"
proof -
  have "read32 (mem s') (p + 4) = read32 (mem s) (p + 4)"
    using assms by (intro read32_frame) auto
  then show ?thesis
    by (simp add: NEXT_FREE_BLOCK_def IS_END_def NEXT_FREE_BLOCK_VAL_def)
qed

lemma prev_cong:
  assumes "\<And>x. p + 8 \<le> x \<Longrightarrow> x < p + 12 \<Longrightarrow> mem s' x = mem s x"
  shows "PREV_FREE_BLOCK s' p = PREV_FREE_BLOCK s p"
proof -
  have "read32 (mem s') (p + 8) = read32 (mem s) (p + 8)"
    using assms by (intro read32_frame) auto
  then show ?thesis
    by (simp add: PREV_FREE_BLOCK_def PREV_FREE_BLOCK_VAL_def)
qed

lemma path_cong:
  "(\<forall>u\<in>set (p # xs). NEXT_FREE_BLOCK s' u = NEXT_FREE_BLOCK s u) \<Longrightarrow>
   (\<forall>u\<in>set xs. PREV_FREE_BLOCK s' u = PREV_FREE_BLOCK s u) \<Longrightarrow>
   path s' p xs = path s p xs"
  by (induction xs arbitrary: p) auto

lemma path_append:
  "path s p (xs @ ys) = (path s p xs \<and> path s (last (p # xs)) ys)"
  by (induction xs arbitrary: p) auto

lemma chain_cong:
  assumes "\<forall>u\<in>set (p # xs). NEXT_FREE_BLOCK s' u = NEXT_FREE_BLOCK s u"
    "\<forall>u\<in>set xs. PREV_FREE_BLOCK s' u = PREV_FREE_BLOCK s u"
  shows "chain s' p xs = chain s p xs"
proof -
  have "last (p # xs) \<in> set (p # xs)" by (rule last_in_set) simp
  then have "IS_END s' (last (p # xs)) = IS_END s (last (p # xs))"
    using assms(1) unfolding IS_END_eq by metis
  then show ?thesis unfolding chain_def using path_cong[OF assms] by simp
qed

lemma chain_frame_lk:
  assumes i: "i < LIST_TOTAL" and fr: "\<forall>x\<in>lkbytes s L. mem s' x = mem s x"
    and hd: "head s' = head s"
  shows "chain s' (bucket s' i) (L i) = chain s (bucket s i) (L i)"
proof -
  have b: "bucket s' i = bucket s i" using hd by (simp add: bucket_def)
  have n0: "NEXT_FREE_BLOCK s' (bucket s i) = NEXT_FREE_BLOCK s (bucket s i)"
  proof -
    have "\<And>x. bucket s i + 4 \<le> x \<Longrightarrow> x < bucket s i + 8 \<Longrightarrow> mem s' x = mem s x"
      using fr i unfolding lkbytes_def by blast
    then show ?thesis using next_cong by blast
  qed
  have n1: "\<And>u. u \<in> set (L i) \<Longrightarrow>
     NEXT_FREE_BLOCK s' u = NEXT_FREE_BLOCK s u \<and> PREV_FREE_BLOCK s' u = PREV_FREE_BLOCK s u"
  proof -
    fix u assume "u \<in> set (L i)"
    then have u: "u \<in> F_of L" using F_ofI[of i u L, OF i] by blast
    have "\<And>x. u + 4 \<le> x \<Longrightarrow> x < u + 12 \<Longrightarrow> mem s' x = mem s x"
      using fr u unfolding lkbytes_def by blast
    then show "NEXT_FREE_BLOCK s' u = NEXT_FREE_BLOCK s u \<and> PREV_FREE_BLOCK s' u = PREV_FREE_BLOCK s u"
      using next_cong[of u s' s] prev_cong[of u s' s] by auto
  qed
  show ?thesis unfolding b by (rule chain_cong) (use n0 n1 in auto)
qed

lemma INVD_frame:
  assumes inv: "INVD s A D L" and sf: "same_fields s s'"
    and fr: "\<forall>x. mem s' x \<noteq> mem s x \<longrightarrow> x \<in> dbytes D \<union> pbytes s A"
  shows "INVD s' A D L"
proof -
  have sz: "SZ s A D L" using inv unfolding INVD_def by simp
  have a: "\<forall>x\<in>szbytes s A L. mem s' x = mem s x"
    using fr dbytes_not_sz[OF sz] pbytes_not_sz[OF sz] by blast
  have b: "\<forall>x\<in>lkbytes s L. mem s' x = mem s x"
    using fr dbytes_not_sz[OF sz] pbytes_not_sz[OF sz] by blast
  have hd: "head s' = head s" using sf unfolding same_fields_def by simp
  have "\<forall>i<LIST_TOTAL. chain s' (bucket s' i) (L i)"
    using inv chain_frame_lk[OF _ b hd] unfolding INVD_def by simp
  then show ?thesis using SZ_frame[OF sz sf a] unfolding INVD_def by simp
qed

section \<open>Ghost steps\<close>

lemma HEADER_PAYLOAD [simp]: "HEADER_ADDR (PAYLOAD_ADDR b) = b" "PAYLOAD_ADDR (HEADER_ADDR p) = p"
  by (simp_all add: HEADER_ADDR_def PAYLOAD_ADDR_def)

lemma HEADER_ADDR_inj: "HEADER_ADDR p = HEADER_ADDR q \<Longrightarrow> p = q"
  by (simp add: HEADER_ADDR_def)

lemma SZ_D_fun: "SZ s A D L \<Longrightarrow> (b, n) \<in> D \<Longrightarrow> (b, m) \<in> D \<Longrightarrow> n = m"
  using SZ_region_fun[OF _ region_D region_D] by blast

lemma SZI:
  assumes "heap_geom s" "dir_zero s" "\<And>p. p \<in> A \<Longrightarrow> IS_SET s (HEADER_ADDR p)"
    "\<And>i. i < LIST_TOTAL \<Longrightarrow> sorted (map (BLOCK_SIZE s) (L i)) \<and> distinct (L i) \<and>
          (\<forall>a\<in>set (L i). free_block s a \<and> search_free_list s (BLOCK_SIZE s a) = bucket s i)"
    "tiling (first s) (mem_brk s) (regions s A D L)"
    "\<And>a. a \<in> F_of L \<Longrightarrow> a + BLOCK_SIZE s a \<notin> F_of L"
    "\<And>b n. (b, n) \<in> D \<Longrightarrow> b \<notin> F_of L \<and> b \<notin> HEADER_ADDR ` A"
  shows "SZ s A D L"
proof -
  have "fst ` D \<inter> (F_of L \<union> HEADER_ADDR ` A) = {}"
  proof (rule ccontr)
    assume "fst ` D \<inter> (F_of L \<union> HEADER_ADDR ` A) \<noteq> {}"
    then obtain x where x: "x \<in> fst ` D" "x \<in> F_of L \<union> HEADER_ADDR ` A" by blast
    then obtain n where "(x, n) \<in> D" by auto
    then show False using assms(7) x(2) by blast
  qed
  then show ?thesis unfolding SZ_def using assms(1-6) by simp
qed

lemma SZ_release:
  assumes sz: "SZ s A D L" and p: "p \<in> A"
  shows "SZ s (A - {p}) (insert (HEADER_ADDR p, BLOCK_SIZE s (HEADER_ADDR p)) D) L"
proof (rule SZI)
  let ?D = "insert (HEADER_ADDR p, BLOCK_SIZE s (HEADER_ADDR p)) D"
  show "heap_geom s" by (rule SZ_geom[OF sz])
  show "dir_zero s" by (rule SZ_dir_zero[OF sz])
  show "\<And>q. q \<in> A - {p} \<Longrightarrow> IS_SET s (HEADER_ADDR q)" using SZ_A_set[OF sz] by simp
  show "\<And>i. i < LIST_TOTAL \<Longrightarrow> sorted (map (BLOCK_SIZE s) (L i)) \<and> distinct (L i) \<and>
          (\<forall>a\<in>set (L i). free_block s a \<and> search_free_list s (BLOCK_SIZE s a) = bucket s i)"
    using SZ_bucket[OF sz] by simp
  have "regions s (A - {p}) ?D L = regions s A D L"
    unfolding regions_def using p by auto
  then show "tiling (first s) (mem_brk s) (regions s (A - {p}) ?D L)"
    using SZ_tiling[OF sz] by simp
  show "\<And>a. a \<in> F_of L \<Longrightarrow> a + BLOCK_SIZE s a \<notin> F_of L" using SZ_noadj[OF sz] by simp
  fix b n assume "(b, n) \<in> ?D"
  then consider "b = HEADER_ADDR p" | "(b, n) \<in> D" by auto
  then show "b \<notin> F_of L \<and> b \<notin> HEADER_ADDR ` (A - {p})"
  proof cases
    case 1
    have "b \<notin> F_of L" using SZ_F_A[OF sz] p 1 by blast
    moreover have "b \<notin> HEADER_ADDR ` (A - {p})" using 1 HEADER_ADDR_inj by blast
    ultimately show ?thesis by simp
  next
    case 2 then show ?thesis using SZ_D_disj[OF sz 2] by blast
  qed
qed

lemma SZ_allocate:
  assumes sz: "SZ s A D L" and b: "(b, n) \<in> D" and bs: "BLOCK_SIZE s b = n" and st: "IS_SET s b"
  shows "SZ s (insert (PAYLOAD_ADDR b) A) (D - {(b, n)}) L"
proof (rule SZI)
  let ?A = "insert (PAYLOAD_ADDR b) A" and ?D = "D - {(b, n)}"
  show "heap_geom s" by (rule SZ_geom[OF sz])
  show "dir_zero s" by (rule SZ_dir_zero[OF sz])
  show "\<And>q. q \<in> ?A \<Longrightarrow> IS_SET s (HEADER_ADDR q)" using SZ_A_set[OF sz] st by auto
  show "\<And>i. i < LIST_TOTAL \<Longrightarrow> sorted (map (BLOCK_SIZE s) (L i)) \<and> distinct (L i) \<and>
          (\<forall>a\<in>set (L i). free_block s a \<and> search_free_list s (BLOCK_SIZE s a) = bucket s i)"
    using SZ_bucket[OF sz] by simp
  have "regions s ?A ?D L = regions s A D L"
    unfolding regions_def using b bs by auto
  then show "tiling (first s) (mem_brk s) (regions s ?A ?D L)"
    using SZ_tiling[OF sz] by simp
  show "\<And>a. a \<in> F_of L \<Longrightarrow> a + BLOCK_SIZE s a \<notin> F_of L" using SZ_noadj[OF sz] by simp
  fix c m assume c: "(c, m) \<in> ?D"
  then have cD: "(c, m) \<in> D" by simp
  have "c \<noteq> b" using c SZ_D_fun[OF sz cD, of n] b by auto
  then show "c \<notin> F_of L \<and> c \<notin> HEADER_ADDR ` ?A" using SZ_D_disj[OF sz cD] by auto
qed

lemma F_of_upd_remove:
  assumes sz: "SZ s A D L" and i: "i < LIST_TOTAL" and b: "b \<in> set (L i)"
  shows "F_of (L(i := remove1 b (L i))) = F_of L - {b}"
proof -
  have d: "distinct (L i)" using SZ_bucket[OF sz i] by simp
  have u: "\<And>j. j < LIST_TOTAL \<Longrightarrow> j \<noteq> i \<Longrightarrow> b \<notin> set (L j)"
    using SZ_F_unique[OF sz i b] by blast
  show ?thesis
  proof (rule set_eqI)
    fix x
    show "x \<in> F_of (L(i := remove1 b (L i))) \<longleftrightarrow> x \<in> F_of L - {b}"
    proof
      assume "x \<in> F_of (L(i := remove1 b (L i)))"
      then obtain j where j: "j < LIST_TOTAL" "x \<in> set ((L(i := remove1 b (L i))) j)"
        unfolding F_of_def by blast
      show "x \<in> F_of L - {b}"
      proof (cases "j = i")
        case True
        then have "x \<in> set (L i) - {b}" using j d by simp
        then show ?thesis using F_ofI[of i x L, OF i] by blast
      next
        case False
        then have "x \<in> set (L j)" using j by simp
        then show ?thesis using F_ofI[of j x L, OF j(1)] u[OF j(1) False] by blast
      qed
    next
      assume "x \<in> F_of L - {b}"
      then obtain j where j: "j < LIST_TOTAL" "x \<in> set (L j)" "x \<noteq> b"
        unfolding F_of_def by blast
      have "x \<in> set ((L(i := remove1 b (L i))) j)" using j d by (cases "j = i") auto
      then show "x \<in> F_of (L(i := remove1 b (L i)))" using j(1) unfolding F_of_def by blast
    qed
  qed
qed

lemma F_of_upd_insort:
  assumes i: "i < LIST_TOTAL"
  shows "F_of (L(i := insort_key f b (L i))) = insert b (F_of L)"
proof (rule set_eqI)
  fix x
  show "x \<in> F_of (L(i := insort_key f b (L i))) \<longleftrightarrow> x \<in> insert b (F_of L)"
  proof
    assume "x \<in> F_of (L(i := insort_key f b (L i)))"
    then obtain j where j: "j < LIST_TOTAL" "x \<in> set ((L(i := insort_key f b (L i))) j)"
      unfolding F_of_def by blast
    show "x \<in> insert b (F_of L)"
    proof (cases "j = i")
      case True
      then have "x = b \<or> x \<in> set (L i)" using j by (simp add: set_insort_key)
      then show ?thesis using F_ofI[of i x L, OF i] by blast
    next
      case False
      then have "x \<in> set (L j)" using j by simp
      then show ?thesis using F_ofI[of j x L, OF j(1)] by blast
    qed
  next
    assume "x \<in> insert b (F_of L)"
    then consider "x = b" | j where "j < LIST_TOTAL" "x \<in> set (L j)"
      unfolding F_of_def by blast
    then show "x \<in> F_of (L(i := insort_key f b (L i)))"
    proof cases
      case 1
      then have "x \<in> set ((L(i := insort_key f b (L i))) i)" by (simp add: set_insort_key)
      then show ?thesis using i unfolding F_of_def by blast
    next
      case 2
      then have "x \<in> set ((L(i := insort_key f b (L i))) j)"
        by (cases "j = i") (auto simp: set_insort_key)
      then show ?thesis using 2(1) unfolding F_of_def by blast
    qed
  qed
qed

lemma SZ_unlist:
  assumes sz: "SZ s A D L" and i: "i < LIST_TOTAL" and b: "b \<in> set (L i)"
  shows "SZ s A (insert (b, BLOCK_SIZE s b) D) (L(i := remove1 b (L i)))"
proof (rule SZI)
  let ?L = "L(i := remove1 b (L i))" and ?D = "insert (b, BLOCK_SIZE s b) D"
  note F = F_of_upd_remove[OF sz i b]
  have bF: "b \<in> F_of L" using F_ofI[of i b L, OF i b] .
  show "heap_geom s" by (rule SZ_geom[OF sz])
  show "dir_zero s" by (rule SZ_dir_zero[OF sz])
  show "\<And>q. q \<in> A \<Longrightarrow> IS_SET s (HEADER_ADDR q)" using SZ_A_set[OF sz] by simp
  show "\<And>j. j < LIST_TOTAL \<Longrightarrow> sorted (map (BLOCK_SIZE s) (?L j)) \<and> distinct (?L j) \<and>
          (\<forall>a\<in>set (?L j). free_block s a \<and> search_free_list s (BLOCK_SIZE s a) = bucket s j)"
  proof -
    fix j assume j: "j < LIST_TOTAL"
    show "sorted (map (BLOCK_SIZE s) (?L j)) \<and> distinct (?L j) \<and>
          (\<forall>a\<in>set (?L j). free_block s a \<and> search_free_list s (BLOCK_SIZE s a) = bucket s j)"
    proof (cases "j = i")
      case True
      have "sorted (map (BLOCK_SIZE s) (remove1 b (L i)))"
        using SZ_bucket[OF sz i] by (simp add: sorted_map_remove1)
      moreover have "distinct (remove1 b (L i))" using SZ_bucket[OF sz i] by simp
      moreover have "\<forall>a\<in>set (remove1 b (L i)). free_block s a \<and>
            search_free_list s (BLOCK_SIZE s a) = bucket s i"
        using SZ_bucket[OF sz i] by (meson notin_set_remove1)
      ultimately show ?thesis using True by simp
    next
      case False then show ?thesis using SZ_bucket[OF sz j] by simp
    qed
  qed
  have "regions s A ?D ?L = regions s A D L"
    unfolding regions_def F using bF by auto
  then show "tiling (first s) (mem_brk s) (regions s A ?D ?L)"
    using SZ_tiling[OF sz] by simp
  show "\<And>a. a \<in> F_of ?L \<Longrightarrow> a + BLOCK_SIZE s a \<notin> F_of ?L"
    unfolding F using SZ_noadj[OF sz] by simp
  fix c m assume "(c, m) \<in> ?D"
  then consider "c = b" | "(c, m) \<in> D" by auto
  then show "c \<notin> F_of ?L \<and> c \<notin> HEADER_ADDR ` A"
  proof cases
    case 1 then show ?thesis unfolding F using SZ_F_A[OF sz bF] by simp
  next
    case 2 then show ?thesis unfolding F using SZ_D_disj[OF sz 2] by simp
  qed
qed

lemma SZ_enlist:
  assumes sz: "SZ s A D L" and b: "(b, n) \<in> D" and bs: "BLOCK_SIZE s b = n"
    and fb: "free_block s b" and i: "i < LIST_TOTAL"
    and bk: "search_free_list s n = bucket s i"
    and nx: "b + n \<notin> F_of L" and pv: "\<And>f. f \<in> F_of L \<Longrightarrow> f + BLOCK_SIZE s f \<noteq> b"
  shows "SZ s A (D - {(b, n)}) (L(i := insort_key (BLOCK_SIZE s) b (L i)))"
proof (rule SZI)
  let ?L = "L(i := insort_key (BLOCK_SIZE s) b (L i))" and ?D = "D - {(b, n)}"
  note F = F_of_upd_insort[OF i, where f="BLOCK_SIZE s" and b=b and L=L]
  have bF: "b \<notin> F_of L" using SZ_D_disj[OF sz b] by simp
  then have bi: "b \<notin> set (L i)" using F_ofI[of i b L, OF i] by blast
  show "heap_geom s" by (rule SZ_geom[OF sz])
  show "dir_zero s" by (rule SZ_dir_zero[OF sz])
  show "\<And>q. q \<in> A \<Longrightarrow> IS_SET s (HEADER_ADDR q)" using SZ_A_set[OF sz] by simp
  show "\<And>j. j < LIST_TOTAL \<Longrightarrow> sorted (map (BLOCK_SIZE s) (?L j)) \<and> distinct (?L j) \<and>
          (\<forall>a\<in>set (?L j). free_block s a \<and> search_free_list s (BLOCK_SIZE s a) = bucket s j)"
  proof -
    fix j assume j: "j < LIST_TOTAL"
    show "sorted (map (BLOCK_SIZE s) (?L j)) \<and> distinct (?L j) \<and>
          (\<forall>a\<in>set (?L j). free_block s a \<and> search_free_list s (BLOCK_SIZE s a) = bucket s j)"
    proof (cases "j = i")
      case True
      have "sorted (map (BLOCK_SIZE s) (insort_key (BLOCK_SIZE s) b (L i)))"
        using SZ_bucket[OF sz i] by (simp add: sorted_insort_key)
      moreover have "distinct (insort_key (BLOCK_SIZE s) b (L i))"
        using SZ_bucket[OF sz i] bi by (simp add: distinct_insort)
      moreover have "\<forall>a\<in>set (insort_key (BLOCK_SIZE s) b (L i)). free_block s a \<and>
            search_free_list s (BLOCK_SIZE s a) = bucket s i"
        using SZ_bucket[OF sz i] fb bk bs by (auto simp: set_insort_key)
      ultimately show ?thesis using True by simp
    next
      case False then show ?thesis using SZ_bucket[OF sz j] by simp
    qed
  qed
  have "regions s A ?D ?L = regions s A D L"
    unfolding regions_def F using b bs by auto
  then show "tiling (first s) (mem_brk s) (regions s A ?D ?L)"
    using SZ_tiling[OF sz] by simp
  show "\<And>a. a \<in> F_of ?L \<Longrightarrow> a + BLOCK_SIZE s a \<notin> F_of ?L"
  proof -
    fix a assume "a \<in> F_of ?L"
    then consider "a = b" | "a \<in> F_of L" unfolding F by blast
    then show "a + BLOCK_SIZE s a \<notin> F_of ?L"
    proof cases
      case 1
      have "16 \<le> n" using SZ_D_in[OF sz b] by simp
      then show ?thesis unfolding F using 1 nx bs by auto
    next
      case 2
      then show ?thesis unfolding F using SZ_noadj[OF sz 2] pv[OF 2] by simp
    qed
  qed
  fix c m assume c: "(c, m) \<in> ?D"
  then have cD: "(c, m) \<in> D" by simp
  have "c \<noteq> b" using c SZ_D_fun[OF sz cD, of n] b by auto
  then show "c \<notin> F_of ?L \<and> c \<notin> HEADER_ADDR ` A" unfolding F using SZ_D_disj[OF sz cD] by auto
qed


lemma SZ_split:
  assumes sz: "SZ s A D L" and b: "(b, n) \<in> D" and k: "16 \<le> k" "k mod 8 = 0" "16 \<le> n - k"
  shows "SZ s A (insert (b, k) (insert (b + k, n - k) (D - {(b, n)}))) L"
proof (rule SZI)
  let ?D = "insert (b, k) (insert (b + k, n - k) (D - {(b, n)}))"
  note bd = SZ_D_disj[OF sz b] and bin = SZ_D_in[OF sz b]
  show "heap_geom s" by (rule SZ_geom[OF sz])
  show "dir_zero s" by (rule SZ_dir_zero[OF sz])
  show "\<And>q. q \<in> A \<Longrightarrow> IS_SET s (HEADER_ADDR q)" using SZ_A_set[OF sz] by simp
  show "\<And>i. i < LIST_TOTAL \<Longrightarrow> sorted (map (BLOCK_SIZE s) (L i)) \<and> distinct (L i) \<and>
          (\<forall>a\<in>set (L i). free_block s a \<and> search_free_list s (BLOCK_SIZE s a) = bucket s i)"
    using SZ_bucket[OF sz] by simp
  have "regions s A ?D L = insert (b, k) (insert (b + k, n - k) (regions s A D L - {(b, n)}))"
    unfolding regions_def using bd by auto
  then show "tiling (first s) (mem_brk s) (regions s A ?D L)"
    using tiling_split[OF SZ_tiling[OF sz] region_D[OF b] k] by simp
  show "\<And>a. a \<in> F_of L \<Longrightarrow> a + BLOCK_SIZE s a \<notin> F_of L" using SZ_noadj[OF sz] by simp
  have inner: "\<And>c. (c, BLOCK_SIZE s c) \<in> regions s A D L \<Longrightarrow> c \<noteq> b + k"
  proof
    fix c assume c: "(c, BLOCK_SIZE s c) \<in> regions s A D L" and e: "c = b + k"
    have "c \<noteq> b" using e k by simp
    from SZ_region_sep[OF sz c region_D[OF b] this] SZ_region_in[OF sz c]
    show False using e k by auto
  qed
  fix c m assume "(c, m) \<in> ?D"
  then consider "c = b" | "c = b + k" | "(c, m) \<in> D" by auto
  then show "c \<notin> F_of L \<and> c \<notin> HEADER_ADDR ` A"
  proof cases
    case 1 then show ?thesis using bd by simp
  next
    case 2
    have "c \<notin> F_of L" using inner[OF region_F, of c] 2 by blast
    moreover have "c \<notin> HEADER_ADDR ` A"
    proof
      assume "c \<in> HEADER_ADDR ` A"
      then obtain p where "p \<in> A" "c = HEADER_ADDR p" by blast
      then show False using inner[OF region_A, of p] 2 by simp
    qed
    ultimately show ?thesis by simp
  next
    case 3 then show ?thesis using SZ_D_disj[OF sz 3] by simp
  qed
qed

lemma SZ_merge:
  assumes sz: "SZ s A D L" and b: "(b, n) \<in> D" and c: "(b + n, m) \<in> D"
  shows "SZ s A (insert (b, n + m) (D - {(b, n), (b + n, m)})) L"
proof (rule SZI)
  let ?D = "insert (b, n + m) (D - {(b, n), (b + n, m)})"
  note bd = SZ_D_disj[OF sz b] and cd = SZ_D_disj[OF sz c]
  show "heap_geom s" by (rule SZ_geom[OF sz])
  show "dir_zero s" by (rule SZ_dir_zero[OF sz])
  show "\<And>q. q \<in> A \<Longrightarrow> IS_SET s (HEADER_ADDR q)" using SZ_A_set[OF sz] by simp
  show "\<And>i. i < LIST_TOTAL \<Longrightarrow> sorted (map (BLOCK_SIZE s) (L i)) \<and> distinct (L i) \<and>
          (\<forall>a\<in>set (L i). free_block s a \<and> search_free_list s (BLOCK_SIZE s a) = bucket s i)"
    using SZ_bucket[OF sz] by simp
  have "regions s A ?D L = insert (b, n + m) (regions s A D L - {(b, n), (b + n, m)})"
    unfolding regions_def using bd cd by auto
  then show "tiling (first s) (mem_brk s) (regions s A ?D L)"
    using tiling_merge[OF SZ_tiling[OF sz] region_D[OF b] region_D[OF c]] by simp
  show "\<And>a. a \<in> F_of L \<Longrightarrow> a + BLOCK_SIZE s a \<notin> F_of L" using SZ_noadj[OF sz] by simp
  fix d j assume "(d, j) \<in> ?D"
  then consider "d = b" | "(d, j) \<in> D" by auto
  then show "d \<notin> F_of L \<and> d \<notin> HEADER_ADDR ` A"
  proof cases
    case 1 then show ?thesis using bd by simp
  next
    case 2 then show ?thesis using SZ_D_disj[OF sz 2] by simp
  qed
qed

lemma accessors_mem_eq:
  "mem s' = mem s \<Longrightarrow>
   BLOCK_SIZE s' = BLOCK_SIZE s \<and> IS_SET s' = IS_SET s \<and> free_block s' = free_block s"
  by (intro conjI ext) (simp_all add: BLOCK_SIZE_def IS_SET_def free_block_def)

lemma SZ_grow:
  assumes sz: "SZ s A D L" and n: "16 \<le> n" "n mod 8 = 0"
    and lim: "mem_brk s + n \<le> mem_max_addr s"
  shows "SZ (s\<lparr>mem_brk := mem_brk s + n\<rparr>) A (insert (mem_brk s, n) D) L"
proof (rule SZI)
  let ?s = "s\<lparr>mem_brk := mem_brk s + n\<rparr>" and ?D = "insert (mem_brk s, n) D"
  have acc: "BLOCK_SIZE ?s = BLOCK_SIZE s" "IS_SET ?s = IS_SET s" "free_block ?s = free_block s"
    using accessors_mem_eq[of ?s s] by simp_all
  have sfl: "\<And>k. search_free_list ?s k = search_free_list s k"
    by (simp add: search_free_list_def)
  have bkt: "\<And>i. bucket ?s i = bucket s i" by (simp add: bucket_def)
  note g = SZ_geom[OF sz]
  show "heap_geom ?s" using g n lim unfolding heap_geom_def by simp presburger
  show "dir_zero ?s" using SZ_dir_zero[OF sz] unfolding dir_zero_def by simp
  show "\<And>q. q \<in> A \<Longrightarrow> IS_SET ?s (HEADER_ADDR q)" using SZ_A_set[OF sz] acc by simp
  show "\<And>i. i < LIST_TOTAL \<Longrightarrow> sorted (map (BLOCK_SIZE ?s) (L i)) \<and> distinct (L i) \<and>
          (\<forall>a\<in>set (L i). free_block ?s a \<and> search_free_list ?s (BLOCK_SIZE ?s a) = bucket ?s i)"
    using SZ_bucket[OF sz] unfolding acc sfl bkt by simp
  have "regions ?s A ?D L = insert (mem_brk s, n) (regions s A D L)"
    unfolding regions_def acc by simp
  moreover have "tiling (first s) (mem_brk s + n) (insert (mem_brk s, n) (regions s A D L))"
    using tiling_grow[OF SZ_tiling[OF sz] n] g unfolding heap_geom_def by simp
  ultimately show "tiling (first ?s) (mem_brk ?s) (regions ?s A ?D L)" by simp
  show "\<And>a. a \<in> F_of L \<Longrightarrow> a + BLOCK_SIZE ?s a \<notin> F_of L" using SZ_noadj[OF sz] acc by simp
  fix c m assume "(c, m) \<in> ?D"
  then consider "c = mem_brk s" | "(c, m) \<in> D" by auto
  then show "c \<notin> F_of L \<and> c \<notin> HEADER_ADDR ` A"
  proof cases
    case 1
    have "c \<notin> F_of L" using SZ_F_in[OF sz, of c] 1 by auto
    moreover have "c \<notin> HEADER_ADDR ` A" using SZ_A_in[OF sz] 1 by force
    ultimately show ?thesis by simp
  next
    case 2 then show ?thesis using SZ_D_disj[OF sz 2] by simp
  qed
qed

section \<open>Writing links\<close>

lemma write32_frame: "\<not> (a \<le> x \<and> x < a + 4) \<Longrightarrow> write32 m a v x = m x"
  using write32_other[of x a m v] by auto

lemma SET_NEXT_fields [simp]: "same_fields s (SET_NEXT_FREE_BLOCK s p q)"
  by (simp add: same_fields_def SET_NEXT_FREE_BLOCK_def)

lemma SET_PREV_fields [simp]: "same_fields s (SET_PREV_FREE_BLOCK s p q)"
  by (simp add: same_fields_def SET_PREV_FREE_BLOCK_def)

lemma SET_NEXT_frame:
  "\<not> (p + 4 \<le> x \<and> x < p + 8) \<Longrightarrow> mem (SET_NEXT_FREE_BLOCK s p q) x = mem s x"
  using write32_other[of x "p + 4" "mem s" "q - p"] by (auto simp: SET_NEXT_FREE_BLOCK_def)

lemma SET_PREV_frame:
  "\<not> (p + 8 \<le> x \<and> x < p + 12) \<Longrightarrow> mem (SET_PREV_FREE_BLOCK s p q) x = mem s x"
  using write32_other[of x "p + 8" "mem s" "q - p"] by (auto simp: SET_PREV_FREE_BLOCK_def)

lemma SET_NEXT_same:
  "- 2147483648 \<le> q - p \<Longrightarrow> q - p < 2147483648 \<Longrightarrow>
   NEXT_FREE_BLOCK (SET_NEXT_FREE_BLOCK s p q) p = q"
  by (simp add: SET_NEXT_FREE_BLOCK_def NEXT_FREE_BLOCK_def NEXT_FREE_BLOCK_VAL_def
        read32_write32_same i32_id)

lemma SET_PREV_same:
  "- 2147483648 \<le> q - p \<Longrightarrow> q - p < 2147483648 \<Longrightarrow>
   PREV_FREE_BLOCK (SET_PREV_FREE_BLOCK s p q) p = q"
  by (simp add: SET_PREV_FREE_BLOCK_def PREV_FREE_BLOCK_def PREV_FREE_BLOCK_VAL_def
        read32_write32_same i32_id)

lemma same_fields_refl [simp]: "same_fields s s"
  by (simp add: same_fields_def)

lemma same_fields_trans: "same_fields s s1 \<Longrightarrow> same_fields s1 s2 \<Longrightarrow> same_fields s s2"
  by (simp add: same_fields_def)

lemma same_fields_mem [simp]: "same_fields s (s\<lparr>mem := m\<rparr>)"
  by (simp add: same_fields_def)

text \<open>Reading a link after a write to another link.\<close>

lemma NEXT_after_SET_NEXT: "u + 4 \<le> p \<or> p + 4 \<le> u \<Longrightarrow>
   NEXT_FREE_BLOCK (SET_NEXT_FREE_BLOCK s p q) u = NEXT_FREE_BLOCK s u"
  using next_cong[of u "SET_NEXT_FREE_BLOCK s p q" s] by (auto simp: SET_NEXT_frame)

lemma NEXT_after_SET_PREV: "u \<le> p \<or> p + 8 \<le> u \<Longrightarrow>
   NEXT_FREE_BLOCK (SET_PREV_FREE_BLOCK s p q) u = NEXT_FREE_BLOCK s u"
  using next_cong[of u "SET_PREV_FREE_BLOCK s p q" s] by (auto simp: SET_PREV_frame)

lemma PREV_after_SET_NEXT: "u + 8 \<le> p \<or> p \<le> u \<Longrightarrow>
   PREV_FREE_BLOCK (SET_NEXT_FREE_BLOCK s p q) u = PREV_FREE_BLOCK s u"
  using prev_cong[of u "SET_NEXT_FREE_BLOCK s p q" s] by (auto simp: SET_NEXT_frame)

lemma PREV_after_SET_PREV: "u + 4 \<le> p \<or> p + 4 \<le> u \<Longrightarrow>
   PREV_FREE_BLOCK (SET_PREV_FREE_BLOCK s p q) u = PREV_FREE_BLOCK s u"
  using prev_cong[of u "SET_PREV_FREE_BLOCK s p q" s] by (auto simp: SET_PREV_frame)

lemma hdr_after_SET_NEXT: "u \<le> p \<or> p + 8 \<le> u \<Longrightarrow>
   read32 (mem (SET_NEXT_FREE_BLOCK s p q)) u = read32 (mem s) u"
  by (rule read32_frame) (auto simp: SET_NEXT_frame)

lemma hdr_after_SET_PREV: "u \<le> p + 4 \<or> p + 12 \<le> u \<Longrightarrow>
   read32 (mem (SET_PREV_FREE_BLOCK s p q)) u = read32 (mem s) u"
  by (rule read32_frame) (auto simp: SET_PREV_frame)

lemma path_cong_butlast:
  "(\<forall>u\<in>set (butlast (p # xs)). NEXT_FREE_BLOCK s' u = NEXT_FREE_BLOCK s u) \<Longrightarrow>
   (\<forall>u\<in>set xs. PREV_FREE_BLOCK s' u = PREV_FREE_BLOCK s u) \<Longrightarrow>
   path s' p xs = path s p xs"
  by (induction xs arbitrary: p) auto

lemma path_distinct_head: "path s p xs \<Longrightarrow> distinct xs \<Longrightarrow> xs \<noteq> [] \<Longrightarrow> hd xs \<noteq> p"
  by (cases xs) auto

section \<open>Degenerate calls of reallocate\<close>

text \<open>Claim C7. For every size and pointer, \<^verbatim>\<open>mm_realloc(NULL, size)\<close> is \<^verbatim>\<open>mm_malloc(size)\<close>
  (same result, same final state), and \<^verbatim>\<open>mm_realloc(ptr, 0)\<close> ends in the state
  \<^verbatim>\<open>mm_free(ptr)\<close> ends in and returns \<^verbatim>\<open>NULL\<close>.\<close>

theorem realloc_degenerate:
  "mm_realloc s NULL sz = mm_malloc s sz \<and>
   mm_realloc s p 0 = map_option (\<lambda>s'. (NULL, s')) (mm_free s p)"
  by (simp add: mm_realloc_def mm_malloc_def mm_free_def)

end
